theory Spec2Isabelle
  imports Complex_Main "HOL-Library.Multiset"
begin

section \<open>Common vocabulary\<close>

text \<open>
  The three agents (\<^verbatim>\<open>hollow_nogo_MCTS/agent.h\<close>, \<^verbatim>\<open>hollow_nogo_Parallel_MCTS/agent.h\<close>,
  \<^verbatim>\<open>2048_expectimax/agent.h\<close>) are embedded function by function.  C++ \<^verbatim>\<open>int\<close> counters
  are \<^typ>\<open>int\<close> (a counter grows by one per node of a path, and its overflow is not
  modelled), \<^verbatim>\<open>float\<close> values are \<^typ>\<open>real\<close> (rounding, infinities and NaN are not
  modelled; the operations that produce them are faults), and pointers to nodes are
  indices into a node store.
\<close>

datatype piece = Empty | Black | White

text \<open>
  \<^verbatim>\<open>action.h\<close> is not among the sources: an action is modelled by the constructor call
  that builds it, \<^verbatim>\<open>action()\<close> or \<^verbatim>\<open>action::place(pos, who)\<close>.
\<close>

datatype action = Null_action | Place_action int piece

text \<open>What the C++ leaves undefined is a fault of the model.\<close>

datatype fault = Div_by_zero | Out_of_range | Not_finite | Null_pointer | Uninitialised

section \<open>Root-parallel player: vote aggregation\<close>

text \<open>
  \<^verbatim>\<open>vote_result[v]++\<close> on a \<^verbatim>\<open>std::vector<int>\<close>: defined only for an index inside the
  vector.
\<close>

definition vec_incr :: "int list \<Rightarrow> int \<Rightarrow> int list option" where
  "vec_incr v i =
     (if 0 \<le> i \<and> i < int (length v) then Some (v[nat i := v ! nat i + 1]) else None)"






section \<open>NoGo search tree\<close>

subsection \<open>The board capability and the random engine\<close>

text \<open>
  \<^verbatim>\<open>board.h\<close> is not among the sources.  The search uses a board only through
  \<^verbatim>\<open>place(pos)\<close> and \<^verbatim>\<open>info().who_take_turns\<close>, and the engine only through
  \<^verbatim>\<open>std::shuffle\<close>; the three are parameters of the model.  \<open>place env b pos = Some b'\<close>
  stands for \<^verbatim>\<open>b.place(pos) == board::legal\<close> with \<open>b'\<close> the board after the move, and
  \<open>None\<close> for every other result, which leaves the board as it was.
\<close>

record ('b, 'g) env =
  place :: "'b \<Rightarrow> int \<Rightarrow> 'b option"
  who_take_turns :: "'b \<Rightarrow> piece"
  shuffle :: "int list \<Rightarrow> 'g \<Rightarrow> int list \<times> 'g"

subsection \<open>Nodes\<close>

text \<open>
  \<^verbatim>\<open>class node : board\<close>.  A \<^verbatim>\<open>node*\<close> is the index of the node in the list of all
  allocated nodes; \<^verbatim>\<open>new node(...)\<close> appends to that list.
\<close>

record 'b node =
  board :: 'b
  win_cnt :: int
  total_cnt :: int
  place_pos :: int
  child :: "nat list"
  parent :: "nat option"

text \<open>The constructor \<^verbatim>\<open>node(const board& state, int m = -1)\<close>.\<close>

definition mk_node :: "'b \<Rightarrow> int \<Rightarrow> 'b node" where
  "mk_node state m =
     \<lparr>board = state, win_cnt = 0, total_cnt = 0, place_pos = m, child = [], parent = None\<rparr>"

text \<open>The field \<^verbatim>\<open>RAVE_Beta\<close>, set to 0.5 by the constructor and never assigned again.\<close>

definition RAVE_Beta :: real where
  "RAVE_Beta = 0.5"

text \<open>\<^verbatim>\<open>std::numeric_limits<float>::max()\<close>\<close>

definition FLT_MAX :: real where
  "FLT_MAX = (2 - 1 / 2 ^ 23) * 2 ^ 127"

subsection \<open>Arithmetic with faults\<close>

text \<open>Reading \<^verbatim>\<open>v[i]\<close> from a \<^verbatim>\<open>std::vector<int>\<close>.\<close>

definition vec_read :: "int list \<Rightarrow> int \<Rightarrow> fault + int" where
  "vec_read v i = (if 0 \<le> i \<and> i < int (length v) then Inr (v ! nat i) else Inl Out_of_range)"

definition fdiv :: "real \<Rightarrow> real \<Rightarrow> fault + real" where
  "fdiv a b = (if b = 0 then Inl Div_by_zero else Inr (a / b))"

text \<open>
  The exploration term \<^verbatim>\<open>std::sqrt(std::log(parent->total_cnt) / total_cnt)\<close>: the logarithm
  of a count below one and the root of a negative quotient are not finite numbers.
\<close>

definition explore :: "int \<Rightarrow> int \<Rightarrow> fault + real" where
  "explore parent_cnt cnt =
     (if parent_cnt \<le> 0 then Inl Not_finite
      else (case fdiv (ln (real_of_int parent_cnt)) (real_of_int cnt) of
              Inl e \<Rightarrow> Inl e
            | Inr x \<Rightarrow> if x < 0 then Inl Not_finite else Inr (sqrt x)))"

text \<open>\<^verbatim>\<open>parent->total_cnt\<close>: the parent pointer must point to a node.\<close>

definition parent_total :: "'b node list \<Rightarrow> 'b node \<Rightarrow> fault + int" where
  "parent_total ns n =
     (case parent n of
        None \<Rightarrow> Inl Null_pointer
      | Some p \<Rightarrow> if p < length ns then Inr (total_cnt (ns ! p)) else Inl Null_pointer)"

subsection \<open>Scores of the RAVE variant (\<^verbatim>\<open>hollow_nogo_MCTS\<close>)\<close>

definition win_rate :: "'b node \<Rightarrow> int list \<Rightarrow> int list \<Rightarrow> fault + real" where
  "win_rate n rave_total rave_win =
     (if win_cnt n = 0 \<and> total_cnt n = 0 then Inr 0
      else (case fdiv (real_of_int (win_cnt n)) (real_of_int (total_cnt n)) of
              Inl e \<Rightarrow> Inl e
            | Inr q \<Rightarrow>
               (case vec_read rave_win (place_pos n) of
                  Inl e \<Rightarrow> Inl e
                | Inr rw \<Rightarrow>
                   (case vec_read rave_total (place_pos n) of
                      Inl e \<Rightarrow> Inl e
                    | Inr rt \<Rightarrow>
                       (case fdiv (real_of_int rw) (real_of_int rt) of
                          Inl e \<Rightarrow> Inl e
                        | Inr q_rave \<Rightarrow>
                            Inr ((1 - RAVE_Beta) * q + RAVE_Beta * q_rave))))))"

definition ucb :: "'b node list \<Rightarrow> 'b node \<Rightarrow> int list \<Rightarrow> int list \<Rightarrow> fault + real" where
  "ucb ns n rave_total rave_win =
     (case win_rate n rave_total rave_win of
        Inl e \<Rightarrow> Inl e
      | Inr w \<Rightarrow>
         (case parent_total ns n of
            Inl e \<Rightarrow> Inl e
          | Inr pt \<Rightarrow>
             (case explore pt (total_cnt n) of
                Inl e \<Rightarrow> Inl e
              | Inr x \<Rightarrow> Inr (w + 1.5 * x))))"

definition ucb_opponent :: "'b node list \<Rightarrow> 'b node \<Rightarrow> int list \<Rightarrow> int list \<Rightarrow> fault + real" where
  "ucb_opponent ns n rave_total rave_win =
     (case win_rate n rave_total rave_win of
        Inl e \<Rightarrow> Inl e
      | Inr w \<Rightarrow>
         (case parent_total ns n of
            Inl e \<Rightarrow> Inl e
          | Inr pt \<Rightarrow>
             (case explore pt (total_cnt n) of
                Inl e \<Rightarrow> Inl e
              | Inr x \<Rightarrow> Inr ((1 - w) + 1.5 * x))))"

subsection \<open>Scores of the parallel variant (\<^verbatim>\<open>hollow_nogo_Parallel_MCTS\<close>)\<close>

definition win_rate_par :: "'b node \<Rightarrow> fault + real" where
  "win_rate_par n =
     (if win_cnt n = 0 \<and> total_cnt n = 0 then Inr 0
      else fdiv (real_of_int (win_cnt n)) (real_of_int (total_cnt n)))"

definition ucb_par :: "'b node list \<Rightarrow> 'b node \<Rightarrow> fault + real" where
  "ucb_par ns n =
     (case parent_total ns n of
        Inl e \<Rightarrow> Inl e
      | Inr pt \<Rightarrow>
          if pt = 0 \<or> total_cnt n = 0 then win_rate_par n
          else (case win_rate_par n of
                  Inl e \<Rightarrow> Inl e
                | Inr w \<Rightarrow>
                   (case explore pt (total_cnt n) of
                      Inl e \<Rightarrow> Inl e
                    | Inr x \<Rightarrow> Inr (w + 1.5 * x))))"

definition ucb_opponent_par :: "'b node list \<Rightarrow> 'b node \<Rightarrow> fault + real" where
  "ucb_opponent_par ns n =
     (case parent_total ns n of
        Inl e \<Rightarrow> Inl e
      | Inr pt \<Rightarrow>
          if pt = 0 \<or> total_cnt n = 0
          then (case win_rate_par n of Inl e \<Rightarrow> Inl e | Inr w \<Rightarrow> Inr (1 - w))
          else (case win_rate_par n of
                  Inl e \<Rightarrow> Inl e
                | Inr w \<Rightarrow>
                   (case explore pt (total_cnt n) of
                      Inl e \<Rightarrow> Inl e
                    | Inr x \<Rightarrow> Inr ((1 - w) + 1.5 * x))))"

subsection \<open>Leaves, expansion and playout (the same text in both variants)\<close>

text \<open>\<^verbatim>\<open>all_space\<close>: the positions 0 to 80, shuffled.\<close>

definition all_space :: "('b, 'g) env \<Rightarrow> 'g \<Rightarrow> int list \<times> 'g" where
  "all_space env g = shuffle env [0..80] g"

definition is_leaf :: "('b, 'g) env \<Rightarrow> 'b node \<Rightarrow> bool" where
  "is_leaf env n =
     (let cnt = length (filter (\<lambda>i. place env (board n) i \<noteq> None) [0..80])
      in \<not> (cnt > 0 \<and> length (child n) = cnt))"

text \<open>The loop of \<^verbatim>\<open>expand_from_leaf\<close>: the first position of \<open>vec\<close> that is legal on \<open>b\<close>.\<close>

fun first_legal :: "('b, 'g) env \<Rightarrow> 'b \<Rightarrow> int list \<Rightarrow> (int \<times> 'b) option" where
  "first_legal env b [] = None"
| "first_legal env b (p # ps) =
     (case place env b p of
        Some b' \<Rightarrow> Some (p, b')
      | None \<Rightarrow> first_legal env b ps)"

text \<open>
  \<^verbatim>\<open>expand_from_leaf\<close> on the node \<open>this\<close>: the node store and the engine afterwards, and
  the returned pointer (the new node, or \<open>this\<close>).
\<close>

definition expand_from_leaf ::
  "('b, 'g) env \<Rightarrow> nat \<Rightarrow> 'b node list \<Rightarrow> 'g \<Rightarrow> 'b node list \<times> 'g \<times> nat" where
  "expand_from_leaf env this ns g =
     (let (vec, g') = all_space env g
      in (case first_legal env (board (ns ! this)) vec of
            Some (pos, b) \<Rightarrow>
              let new_node = length ns
              in ((ns[this := (ns ! this)\<lparr>child := child (ns ! this) @ [new_node]\<rparr>])
                    @ [(mk_node b pos)\<lparr>parent := Some this\<rparr>],
                  g', new_node)
          | None \<Rightarrow> (ns, g', this)))"

text \<open>
  The queue loop of \<^verbatim>\<open>simulate_winner\<close>.  \<^verbatim>\<open>q.front()\<close> of an empty queue has no value, and
  neither has a loop that does not end: both are \<open>None\<close>.
\<close>

partial_function (option) playout ::
  "('b, 'g) env \<Rightarrow> 'b \<Rightarrow> int list \<Rightarrow> nat \<Rightarrow> 'b option" where
  "playout env b q cnt =
     (if cnt \<noteq> length q
      then (case q of
              [] \<Rightarrow> None
            | i # q' \<Rightarrow>
               (case place env b i of
                  None \<Rightarrow> playout env b (q' @ [i]) (cnt + 1)
                | Some b' \<Rightarrow> playout env b' q' 0))
      else Some b)"

definition simulate_winner ::
  "('b, 'g) env \<Rightarrow> 'b node \<Rightarrow> 'g \<Rightarrow> (piece \<times> 'g) option" where
  "simulate_winner env n g =
     (let (vec, g') = all_space env g
      in (case playout env (board n) vec 0 of
            None \<Rightarrow> None
          | Some b \<Rightarrow> Some (if who_take_turns env b = White then Black else White, g')))"

subsection \<open>Selection\<close>

text \<open>
  The inner loop of \<^verbatim>\<open>select_root_to_leaf\<close> and of \<^verbatim>\<open>select_action\<close>: the first child whose
  score is larger than every score before it and than the start value of \<open>max_score\<close>.  The
  pointer \<^verbatim>\<open>c\<close> is declared without a value: \<open>None\<close> until the loop assigns it.
\<close>

fun scan_children ::
  "(nat \<Rightarrow> fault + real) \<Rightarrow> nat list \<Rightarrow> real \<Rightarrow> nat option \<Rightarrow> fault + nat option" where
  "scan_children score [] max_score c = Inr c"
| "scan_children score (k # ks) max_score c =
     (case score k of
        Inl e \<Rightarrow> Inl e
      | Inr tmp \<Rightarrow>
          if tmp > max_score then scan_children score ks tmp (Some k)
          else scan_children score ks max_score c)"

text \<open>A score of the child pointer \<open>k\<close>, which must point to a node.\<close>

definition at_node :: "'b node list \<Rightarrow> ('b node \<Rightarrow> fault + real) \<Rightarrow> nat \<Rightarrow> fault + real" where
  "at_node ns score k = (if k < length ns then score (ns ! k) else Inl Null_pointer)"

text \<open>
  The \<^verbatim>\<open>while\<close> loop of \<^verbatim>\<open>select_root_to_leaf\<close>; \<open>own\<close> and \<open>opp\<close> are the variant's
  \<^verbatim>\<open>ucb\<close> and \<^verbatim>\<open>ucb_opponent\<close>.  A walk that does not end is \<open>None\<close>.
\<close>

partial_function (option) select_loop ::
  "('b, 'g) env \<Rightarrow> ('b node \<Rightarrow> fault + real) \<Rightarrow> ('b node \<Rightarrow> fault + real) \<Rightarrow> piece
     \<Rightarrow> 'b node list \<Rightarrow> nat \<Rightarrow> nat list \<Rightarrow> (fault + nat list) option" where
  "select_loop env own opp who ns cur vec =
     (if \<not> cur < length ns then Some (Inl Null_pointer)
      else if \<not> is_leaf env (ns ! cur)
      then (if length (child (ns ! cur)) = 0 then Some (Inr vec)
            else (case scan_children
                         (at_node ns (if who = who_take_turns env (board (ns ! cur))
                                      then own else opp))
                         (child (ns ! cur)) (- FLT_MAX) None of
                    Inl e \<Rightarrow> Some (Inl e)
                  | Inr None \<Rightarrow> Some (Inl Uninitialised)
                  | Inr (Some c) \<Rightarrow> select_loop env own opp who ns c (vec @ [c])))
      else Some (Inr vec))"

definition select_root_to_leaf ::
  "('b, 'g) env \<Rightarrow> nat \<Rightarrow> piece \<Rightarrow> 'b node list \<Rightarrow> int list \<Rightarrow> int list
     \<Rightarrow> (fault + nat list) option" where
  "select_root_to_leaf env this who ns rave_total rave_win =
     select_loop env (\<lambda>n. ucb ns n rave_total rave_win)
       (\<lambda>n. ucb_opponent ns n rave_total rave_win) who ns this [this]"

definition select_root_to_leaf_par ::
  "('b, 'g) env \<Rightarrow> nat \<Rightarrow> piece \<Rightarrow> 'b node list \<Rightarrow> (fault + nat list) option" where
  "select_root_to_leaf_par env this who ns =
     select_loop env (ucb_par ns) (ucb_opponent_par ns) who ns this [this]"

text \<open>\<^verbatim>\<open>select_action\<close> of the RAVE variant and of the parallel variant.\<close>

definition select_action ::
  "('b, 'g) env \<Rightarrow> nat \<Rightarrow> 'b node list \<Rightarrow> int list \<Rightarrow> int list \<Rightarrow> fault + action" where
  "select_action env this ns rave_total rave_win =
     (if length (child (ns ! this)) = 0 then Inr Null_action
      else (case scan_children (at_node ns (\<lambda>n. win_rate n rave_total rave_win))
                   (child (ns ! this)) (- FLT_MAX) None of
              Inl e \<Rightarrow> Inl e
            | Inr None \<Rightarrow> Inl Uninitialised
            | Inr (Some c) \<Rightarrow>
                Inr (Place_action (place_pos (ns ! c)) (who_take_turns env (board (ns ! this))))))"

definition select_action_par :: "nat \<Rightarrow> 'b node list \<Rightarrow> fault + int" where
  "select_action_par this ns =
     (if length (child (ns ! this)) = 0 then Inr (- 1)
      else (case scan_children (at_node ns win_rate_par) (child (ns ! this)) (- FLT_MAX) None of
              Inl e \<Rightarrow> Inl e
            | Inr None \<Rightarrow> Inl Uninitialised
            | Inr (Some c) \<Rightarrow> Inr (place_pos (ns ! c))))"

subsection \<open>Backup\<close>

text \<open>
  The RAVE tables of the player: two vectors of 81 counters.  \<^verbatim>\<open>rave_total[i]++\<close> with an
  index outside the vector is undefined in C++; the vector's own 81 cells are not the
  target of such a write, so the model keeps them and records the index in \<open>oob\<close>.
\<close>

record rave =
  rave_total :: "int list"
  rave_win :: "int list"
  oob :: "int list"

definition rave_total_incr :: "int \<Rightarrow> rave \<Rightarrow> rave" where
  "rave_total_incr i r =
     (case vec_incr (rave_total r) i of
        Some v \<Rightarrow> r\<lparr>rave_total := v\<rparr>
      | None \<Rightarrow> r\<lparr>oob := oob r @ [i]\<rparr>)"

definition rave_win_incr :: "int \<Rightarrow> rave \<Rightarrow> rave" where
  "rave_win_incr i r =
     (case vec_incr (rave_win r) i of
        Some v \<Rightarrow> r\<lparr>rave_win := v\<rparr>
      | None \<Rightarrow> r\<lparr>oob := oob r @ [i]\<rparr>)"

text \<open>\<^verbatim>\<open>path[i]->total_cnt++\<close> and \<^verbatim>\<open>path[i]->win_cnt++\<close>\<close>

definition total_cnt_incr :: "nat \<Rightarrow> 'b node list \<Rightarrow> 'b node list" where
  "total_cnt_incr n ns = ns[n := (ns ! n)\<lparr>total_cnt := total_cnt (ns ! n) + 1\<rparr>]"

definition win_cnt_incr :: "nat \<Rightarrow> 'b node list \<Rightarrow> 'b node list" where
  "win_cnt_incr n ns = ns[n := (ns ! n)\<lparr>win_cnt := win_cnt (ns ! n) + 1\<rparr>]"

text \<open>
  \<^verbatim>\<open>back_propagate\<close> of the RAVE variant, called on the node \<open>this\<close>: \<^verbatim>\<open>info()\<close> is the
  board of \<open>this\<close>.
\<close>

fun back_propagate ::
  "('b, 'g) env \<Rightarrow> nat \<Rightarrow> nat list \<Rightarrow> piece \<Rightarrow> 'b node list \<times> rave \<Rightarrow> 'b node list \<times> rave" where
  "back_propagate env this [] winner (ns, r) = (ns, r)"
| "back_propagate env this (n # path) winner (ns, r) =
     (let ns1 = total_cnt_incr n ns;
          r1 = rave_total_incr (place_pos (ns1 ! n)) r
      in if winner = who_take_turns env (board (ns1 ! this))
         then back_propagate env this path winner
                (win_cnt_incr n ns1, rave_win_incr (place_pos (ns1 ! n)) r1)
         else back_propagate env this path winner (ns1, r1))"

text \<open>\<^verbatim>\<open>back_propagate\<close> of the parallel variant.\<close>

fun back_propagate_par ::
  "('b, 'g) env \<Rightarrow> nat \<Rightarrow> nat list \<Rightarrow> piece \<Rightarrow> 'b node list \<Rightarrow> 'b node list" where
  "back_propagate_par env this [] winner ns = ns"
| "back_propagate_par env this (n # path) winner ns =
     (let ns1 = total_cnt_incr n ns
      in if winner = who_take_turns env (board (ns1 ! this))
         then back_propagate_par env this path winner (win_cnt_incr n ns1)
         else back_propagate_par env this path winner ns1)"

subsection \<open>The search loop\<close>

text \<open>
  One pass of the \<^verbatim>\<open>for\<close> loop of \<^verbatim>\<open>MCTS\<close>, called on the node \<open>this\<close>: select, expand,
  simulate, back propagate.
\<close>

definition iteration ::
  "('b, 'g) env \<Rightarrow> nat \<Rightarrow> 'b node list \<times> 'g \<times> rave
     \<Rightarrow> (fault + 'b node list \<times> 'g \<times> rave) option" where
  "iteration env this s =
     (case s of (ns, g, r) \<Rightarrow>
       (case select_root_to_leaf env this (who_take_turns env (board (ns ! this))) ns
               (rave_total r) (rave_win r) of
          None \<Rightarrow> None
        | Some (Inl e) \<Rightarrow> Some (Inl e)
        | Some (Inr path) \<Rightarrow>
           (let leaf = last path;
                (ns1, g1, expand_node) = expand_from_leaf env leaf ns g;
                path1 = (if expand_node \<noteq> leaf then path @ [expand_node] else path)
            in (case simulate_winner env (ns1 ! last path1) g1 of
                  None \<Rightarrow> None
                | Some (winner, g2) \<Rightarrow>
                    (case back_propagate env this path1 winner (ns1, r) of
                       (ns2, r2) \<Rightarrow> Some (Inr (ns2, g2, r2)))))))"

definition iteration_par ::
  "('b, 'g) env \<Rightarrow> nat \<Rightarrow> 'b node list \<times> 'g \<Rightarrow> (fault + 'b node list \<times> 'g) option" where
  "iteration_par env this s =
     (case s of (ns, g) \<Rightarrow>
       (case select_root_to_leaf_par env this (who_take_turns env (board (ns ! this))) ns of
          None \<Rightarrow> None
        | Some (Inl e) \<Rightarrow> Some (Inl e)
        | Some (Inr path) \<Rightarrow>
           (let leaf = last path;
                (ns1, g1, expand_node) = expand_from_leaf env leaf ns g;
                path1 = (if expand_node \<noteq> leaf then path @ [expand_node] else path)
            in (case simulate_winner env (ns1 ! last path1) g1 of
                  None \<Rightarrow> None
                | Some (winner, g2) \<Rightarrow>
                    Some (Inr (back_propagate_par env this path1 winner ns1, g2))))))"

text \<open>The \<^verbatim>\<open>for\<close> loop: \<open>k\<close> passes, stopping at the first that has no result.\<close>

fun iterations ::
  "('b, 'g) env \<Rightarrow> nat \<Rightarrow> nat \<Rightarrow> 'b node list \<times> 'g \<times> rave
     \<Rightarrow> (fault + 'b node list \<times> 'g \<times> rave) option" where
  "iterations env this 0 s = Some (Inr s)"
| "iterations env this (Suc k) s =
     (case iteration env this s of
        None \<Rightarrow> None
      | Some (Inl e) \<Rightarrow> Some (Inl e)
      | Some (Inr s') \<Rightarrow> iterations env this k s')"

fun iterations_par ::
  "('b, 'g) env \<Rightarrow> nat \<Rightarrow> nat \<Rightarrow> 'b node list \<times> 'g \<Rightarrow> (fault + 'b node list \<times> 'g) option" where
  "iterations_par env this 0 s = Some (Inr s)"
| "iterations_par env this (Suc k) s =
     (case iteration_par env this s of
        None \<Rightarrow> None
      | Some (Inl e) \<Rightarrow> Some (Inl e)
      | Some (Inr s') \<Rightarrow> iterations_par env this k s')"

text \<open>\<^verbatim>\<open>MCTS(N, ...)\<close>: \<open>N\<close> passes, then the choice of the action.\<close>

definition MCTS ::
  "('b, 'g) env \<Rightarrow> nat \<Rightarrow> int \<Rightarrow> 'b node list \<times> 'g \<times> rave
     \<Rightarrow> (fault + action \<times> 'b node list \<times> 'g \<times> rave) option" where
  "MCTS env this N s =
     (case iterations env this (nat N) s of
        None \<Rightarrow> None
      | Some (Inl e) \<Rightarrow> Some (Inl e)
      | Some (Inr (ns, g, r)) \<Rightarrow>
          (case select_action env this ns (rave_total r) (rave_win r) of
             Inl e \<Rightarrow> Some (Inl e)
           | Inr a \<Rightarrow> Some (Inr (a, ns, g, r))))"

definition MCTS_par ::
  "('b, 'g) env \<Rightarrow> nat \<Rightarrow> int \<Rightarrow> 'b node list \<times> 'g
     \<Rightarrow> (fault + int \<times> 'b node list \<times> 'g) option" where
  "MCTS_par env this N s =
     (case iterations_par env this (nat N) s of
        None \<Rightarrow> None
      | Some (Inl e) \<Rightarrow> Some (Inl e)
      | Some (Inr (ns, g)) \<Rightarrow>
          (case select_action_par this ns of
             Inl e \<Rightarrow> Some (Inl e)
           | Inr m \<Rightarrow> Some (Inr (m, ns, g))))"

text \<open>
  The state in which \<^verbatim>\<open>take_action\<close> starts the search: the tables assigned 81 zeros and
  the tree \<^verbatim>\<open>node(state)\<close>, a single node at index 0.
\<close>

definition rave_init :: rave where
  "rave_init = \<lparr>rave_total = replicate 81 0, rave_win = replicate 81 0, oob = []\<rparr>"

definition tree_init :: "'b \<Rightarrow> 'b node list" where
  "tree_init state = [mk_node state (- 1)]"

text \<open>\<^verbatim>\<open>take_action\<close> of the RAVE variant for \<^verbatim>\<open>N\<close> other than 0.\<close>

definition take_action ::
  "('b, 'g) env \<Rightarrow> int \<Rightarrow> 'b \<Rightarrow> 'g \<Rightarrow> (fault + action \<times> 'b node list \<times> 'g \<times> rave) option" where
  "take_action env N state g = MCTS env 0 N (tree_init state, g, rave_init)"

subsection \<open>A board to run the search on\<close>

text \<open>
  A board with the interface above, on which the definitions can be run.  It is not the
  NoGo rule set (which also forbids captures and suicides): a board is the list of the
  positions played and the side to move, every free position of the 9 by 9 grid is legal,
  as on the empty NoGo board, and a legal move flips the turn.  The engine's state is a
  number by which the positions are rotated.  The theorems below hold for every board
  and engine; this one only provides their concrete instances.
\<close>

definition grid_place :: "int list \<times> piece \<Rightarrow> int \<Rightarrow> (int list \<times> piece) option" where
  "grid_place b pos =
     (if 0 \<le> pos \<and> pos < 81 \<and> pos \<notin> set (fst b)
      then Some (pos # fst b, if snd b = Black then White else Black)
      else None)"

definition grid_env :: "(int list \<times> piece, nat) env" where
  "grid_env = \<lparr>place = grid_place, who_take_turns = snd,
                shuffle = (\<lambda>v g. (rotate g v, Suc g))\<rparr>"

section \<open>The 2048 expectimax player\<close>

subsection \<open>The board capability\<close>

text \<open>
  \<^verbatim>\<open>board.h\<close> of the 2048 framework is not among the sources.  The player uses a board
  through five operations, which are parameters of the model: \<open>cell b pos\<close> is
  \<^verbatim>\<open>b(pos)\<close>; \<open>slide b op\<close> is \<^verbatim>\<open>b.slide(op)\<close>, the returned reward (\<open>-1\<close> for a slide that
  is not legal) with the board afterwards; \<open>rotate_right\<close>, \<open>reflect_horizontal\<close> and
  \<open>place_tile b pos tile\<close> (for \<^verbatim>\<open>b.place(pos, tile)\<close>) give the board afterwards.
\<close>

record 'b ops2048 =
  cell :: "'b \<Rightarrow> nat \<Rightarrow> nat"
  slide :: "'b \<Rightarrow> int \<Rightarrow> int \<times> 'b"
  rotate_right :: "'b \<Rightarrow> 'b"
  reflect_horizontal :: "'b \<Rightarrow> 'b"
  place_tile :: "'b \<Rightarrow> nat \<Rightarrow> nat \<Rightarrow> 'b"

text \<open>
  \<^verbatim>\<open>action.h\<close> of the 2048 framework is not among the sources either: \<^verbatim>\<open>action()\<close> and
  \<^verbatim>\<open>action::slide(op)\<close> are modelled by the constructor call.
\<close>

datatype action2048 = Null_action2048 | Slide_action int

subsection \<open>The n-tuple network\<close>

text \<open>
  \<^verbatim>\<open>extract_feature6\<close>.  Cells are unsigned 32-bit values below 16 in the framework, so
  the index is below \<open>16 ^ 6\<close> and the C++ arithmetic does not wrap.
\<close>

definition extract_feature6 ::
  "'b ops2048 \<Rightarrow> 'b \<Rightarrow> nat \<Rightarrow> nat \<Rightarrow> nat \<Rightarrow> nat \<Rightarrow> nat \<Rightarrow> nat \<Rightarrow> nat" where
  "extract_feature6 ops after a b c d e f =
     cell ops after a * 16 * 16 * 16 * 16 * 16
   + cell ops after b * 16 * 16 * 16 * 16
   + cell ops after c * 16 * 16 * 16
   + cell ops after d * 16 * 16
   + cell ops after e * 16
   + cell ops after f"

text \<open>
  The body of either \<^verbatim>\<open>for\<close> loop of \<^verbatim>\<open>estimate_value\<close>: the four indices on the
  board \<open>b\<close> and the lookups \<open>net t idx\<close> (for \<^verbatim>\<open>net[t][idx]\<close>) that are added to
  \<^verbatim>\<open>sum\<close>, then the rotation of \<open>b\<close>.
\<close>

definition tuple_sum :: "'b ops2048 \<Rightarrow> (nat \<Rightarrow> nat \<Rightarrow> real) \<Rightarrow> 'b \<Rightarrow> real" where
  "tuple_sum ops net b =
     (let idx0 = extract_feature6 ops b 0 1 2 3 4 5;
          idx1 = extract_feature6 ops b 4 5 6 7 8 9;
          idx2 = extract_feature6 ops b 0 1 2 4 5 6;
          idx3 = extract_feature6 ops b 4 5 6 8 9 10
      in net 0 idx0 + net 1 idx1 + net 2 idx2 + net 3 idx3)"

definition tuple_pass ::
  "'b ops2048 \<Rightarrow> (nat \<Rightarrow> nat \<Rightarrow> real) \<Rightarrow> real \<times> 'b \<Rightarrow> real \<times> 'b" where
  "tuple_pass ops net s =
     (case s of (acc, b) \<Rightarrow> (acc + tuple_sum ops net b, rotate_right ops b))"

text \<open>\<^verbatim>\<open>estimate_value\<close>: four passes, the reflection, four passes.\<close>

definition estimate_value :: "'b ops2048 \<Rightarrow> (nat \<Rightarrow> nat \<Rightarrow> real) \<Rightarrow> 'b \<Rightarrow> real" where
  "estimate_value ops net after =
     (case (tuple_pass ops net ^^ 4) (0, after) of (acc, b) \<Rightarrow>
        fst ((tuple_pass ops net ^^ 4) (acc, reflect_horizontal ops b)))"

subsection \<open>Expectimax\<close>

text \<open>
  The inner \<^verbatim>\<open>for\<close> loop of \<^verbatim>\<open>expectation\<close> over the four directions, on the board \<open>b\<close>
  with the new tile: \<open>val_max\<close> starts at \<open>- FLT_MAX\<close>.
\<close>

definition best_slide :: "'b ops2048 \<Rightarrow> (nat \<Rightarrow> nat \<Rightarrow> real) \<Rightarrow> 'b \<Rightarrow> real" where
  "best_slide ops net b =
     fold (\<lambda>i val_max.
             case slide ops b i of (reward, b_tmp) \<Rightarrow>
               if reward = - 1 then val_max
               else max val_max (real_of_int reward + estimate_value ops net b_tmp))
          [0, 1, 2, 3] (- FLT_MAX)"

definition expectation :: "'b ops2048 \<Rightarrow> (nat \<Rightarrow> nat \<Rightarrow> real) \<Rightarrow> 'b \<Rightarrow> real" where
  "expectation ops net after =
     (let empty_space = length (filter (\<lambda>pos. cell ops after pos = 0) [0..<16])
      in fold (\<lambda>pos result.
                 if cell ops after pos \<noteq> 0 then result
                 else result
                        + (best_slide ops net (place_tile ops after pos 1) * 0.9
                           + best_slide ops net (place_tile ops after pos 2) * 0.1)
                          / real empty_space)
              [0..<16] 0)"

text \<open>
  \<^verbatim>\<open>player::take_action\<close>: the returned action with the values left in \<^verbatim>\<open>vs\<close> and \<^verbatim>\<open>r\<close>.
  The loop state is \<open>(val_max, r_max, op)\<close>.
\<close>

definition take_action2048 ::
  "'b ops2048 \<Rightarrow> (nat \<Rightarrow> nat \<Rightarrow> real) \<Rightarrow> 'b \<Rightarrow> action2048 \<times> real \<times> int" where
  "take_action2048 ops net before =
     (case fold (\<lambda>i (val_max, r_max, op).
                   case slide ops before i of (reward, b) \<Rightarrow>
                     if reward = - 1 then (val_max, r_max, op)
                     else let v = real_of_int reward + expectation ops net b
                          in if v > val_max then (v, reward, i) else (val_max, r_max, op))
                [0, 1, 2, 3] (- FLT_MAX, - 2147483648, - 1) of
        (val_max, r_max, op) \<Rightarrow> (Slide_action op, val_max, r_max))"

text \<open>\<^verbatim>\<open>dummy_player::take_action\<close> with the directions in the order \<open>opcode\<close>.\<close>

definition dummy_take_action :: "'b ops2048 \<Rightarrow> int list \<Rightarrow> 'b \<Rightarrow> action2048" where
  "dummy_take_action ops opcode before =
     (case filter (\<lambda>op. fst (slide ops before op) \<noteq> - 1) opcode of
        [] \<Rightarrow> Null_action2048
      | op # _ \<Rightarrow> Slide_action op)"

subsection \<open>The symmetries of the square\<close>



subsection \<open>A board to run the player on\<close>

text \<open>
  Modelled from the spec: the 2048 board of \<^verbatim>\<open>board.h\<close>, which is not among the sources.
  Sixteen cells in row-major order, a cell \<open>k > 0\<close> standing for the tile \<open>2 ^ k\<close>; a slide
  moves the tiles of each row or column to one side and merges two equal neighbours once
  into the next tile, for a reward of that tile's worth; \<open>-1\<close> when nothing moves.
\<close>

fun grid_reflect_horizontal :: "nat list \<Rightarrow> nat list" where
  "grid_reflect_horizontal [a0, a1, a2, a3, a4, a5, a6, a7, a8, a9, a10, a11, a12, a13, a14, a15] =
     [a3, a2, a1, a0, a7, a6, a5, a4, a11, a10, a9, a8, a15, a14, a13, a12]"
| "grid_reflect_horizontal b = b"

fun grid_transpose :: "nat list \<Rightarrow> nat list" where
  "grid_transpose [a0, a1, a2, a3, a4, a5, a6, a7, a8, a9, a10, a11, a12, a13, a14, a15] =
     [a0, a4, a8, a12, a1, a5, a9, a13, a2, a6, a10, a14, a3, a7, a11, a15]"
| "grid_transpose b = b"

definition grid_rotate_right :: "nat list \<Rightarrow> nat list" where
  "grid_rotate_right b = grid_reflect_horizontal (grid_transpose b)"

definition grid_rotate_left :: "nat list \<Rightarrow> nat list" where
  "grid_rotate_left b = grid_transpose (grid_reflect_horizontal b)"

text \<open>One row slid to the left: the tiles still to come, the tile held back, the free cells.\<close>

fun row_left :: "nat list \<Rightarrow> nat \<Rightarrow> nat list \<times> int" where
  "row_left [] hold = (if hold = 0 then [] else [hold], 0)"
| "row_left (t # ts) hold =
     (if t = 0 then row_left ts hold
      else if hold = 0 then row_left ts t
      else if t = hold
           then (case row_left ts 0 of (row, score) \<Rightarrow> (Suc t # row, score + 2 ^ Suc t))
           else (case row_left ts t of (row, score) \<Rightarrow> (hold # row, score)))"

definition grid_row_left :: "nat list \<Rightarrow> nat list \<times> int" where
  "grid_row_left row =
     (case row_left row 0 of (r, score) \<Rightarrow> (r @ replicate (length row - length r) 0, score))"

definition grid_slide_left :: "nat list \<Rightarrow> int \<times> nat list" where
  "grid_slide_left b =
     (let rows = map (\<lambda>r. grid_row_left (take 4 (drop (4 * r) b))) [0, 1, 2, 3];
          b' = concat (map fst rows);
          score = sum_list (map snd rows)
      in if b' \<noteq> b then (score, b') else (- 1, b))"

definition grid_slide_right :: "nat list \<Rightarrow> int \<times> nat list" where
  "grid_slide_right b =
     (case grid_slide_left (grid_reflect_horizontal b) of
        (score, b') \<Rightarrow> (score, grid_reflect_horizontal b'))"

definition grid_slide_up :: "nat list \<Rightarrow> int \<times> nat list" where
  "grid_slide_up b =
     (case grid_slide_right (grid_rotate_right b) of
        (score, b') \<Rightarrow> (score, grid_rotate_left b'))"

definition grid_slide_down :: "nat list \<Rightarrow> int \<times> nat list" where
  "grid_slide_down b =
     (case grid_slide_left (grid_rotate_right b) of
        (score, b') \<Rightarrow> (score, grid_rotate_left b'))"

definition grid_slide :: "nat list \<Rightarrow> int \<Rightarrow> int \<times> nat list" where
  "grid_slide b op =
     (if op mod 4 = 0 then grid_slide_up b
      else if op mod 4 = 1 then grid_slide_right b
      else if op mod 4 = 2 then grid_slide_down b
      else grid_slide_left b)"

definition grid_ops :: "nat list ops2048" where
  "grid_ops = \<lparr>cell = (\<lambda>b pos. b ! pos), slide = grid_slide, rotate_right = grid_rotate_right,
               reflect_horizontal = grid_reflect_horizontal,
               place_tile = (\<lambda>b pos tile. b[pos := tile])\<rparr>"

section \<open>Invariant of the RAVE search\<close>

text \<open>
  The state between two passes of the loop of \<^verbatim>\<open>MCTS\<close> called on node 0: both tables have
  81 non-negative cells of which none was lost, no count is negative, and every node
  other than node 0 has been visited, was placed at a position of the board, has been
  counted in \<open>rave_total\<close> at that position each time it was visited, and hangs below a
  visited node.
\<close>

definition rave_inv :: "'b node list \<Rightarrow> rave \<Rightarrow> bool" where
  "rave_inv ns r \<longleftrightarrow>
     length (rave_total r) = 81 \<and> length (rave_win r) = 81
   \<and> (\<forall>j < 81. 0 \<le> rave_total r ! j)
   \<and> (\<forall>i < length ns. 0 \<le> total_cnt (ns ! i))
   \<and> (\<forall>i < length ns. 0 < i \<longrightarrow>
         1 \<le> total_cnt (ns ! i)
       \<and> 0 \<le> place_pos (ns ! i) \<and> place_pos (ns ! i) < 81
       \<and> total_cnt (ns ! i) \<le> rave_total r ! nat (place_pos (ns ! i))
       \<and> (\<exists>p < length ns. parent (ns ! i) = Some p \<and> 1 \<le> total_cnt (ns ! p)))"

section \<open>The node value as the specification words it\<close>




section \<open>Vocabulary for the chance node\<close>

text \<open>The empty positions of an after-board, in the order the loops of \<^verbatim>\<open>expectation\<close> visit them.\<close>

definition empty_cells :: "'b ops2048 \<Rightarrow> 'b \<Rightarrow> nat list" where
  "empty_cells ops after = filter (\<lambda>pos. cell ops after pos = 0) [0..<16]"

text \<open>
  The values \<open>reward + estimate_value(result)\<close> of the legal slide directions of a
  board, in the order of the directions.
\<close>

definition legal_values :: "'b ops2048 \<Rightarrow> (nat \<Rightarrow> nat \<Rightarrow> real) \<Rightarrow> 'b \<Rightarrow> real list" where
  "legal_values ops net b =
     map (\<lambda>i. real_of_int (fst (slide ops b i)) + estimate_value ops net (snd (slide ops b i)))
       (filter (\<lambda>i. fst (slide ops b i) \<noteq> - 1) [0, 1, 2, 3])"

text \<open>
  Section 4.A3 of the specification: \<open>v\<close> is the maximum over the legal slide directions
  when it is the value of one of them and none has a larger value.
\<close>

definition is_max_of :: "real \<Rightarrow> real list \<Rightarrow> bool" where
  "is_max_of v vs \<longleftrightarrow> v \<in> set vs \<and> list_all (\<lambda>x. x \<le> v) vs"

section \<open>The table entries read by the value estimator\<close>

text \<open>
  The four pairs (table, index) that one pass of \<^verbatim>\<open>estimate_value\<close> reads on the board
  \<open>b\<close>, and the 32 pairs of a whole call: four passes from the board, the reflection of
  the board reached, four more passes.  Lemma \<open>estimate_value_lookups\<close> below shows that
  \<^verbatim>\<open>estimate_value\<close> is the sum of exactly these entries, for every content of the tables.
\<close>

definition tuple_lookups :: "'b ops2048 \<Rightarrow> 'b \<Rightarrow> (nat \<times> nat) list" where
  "tuple_lookups ops b =
     [(0, extract_feature6 ops b 0 1 2 3 4 5),
      (1, extract_feature6 ops b 4 5 6 7 8 9),
      (2, extract_feature6 ops b 0 1 2 4 5 6),
      (3, extract_feature6 ops b 4 5 6 8 9 10)]"

definition estimate_lookups :: "'b ops2048 \<Rightarrow> 'b \<Rightarrow> (nat \<times> nat) list" where
  "estimate_lookups ops after =
     (let b' = reflect_horizontal ops ((rotate_right ops ^^ 4) after)
      in concat (map (\<lambda>k. tuple_lookups ops ((rotate_right ops ^^ k) after)) [0, 1, 2, 3])
       @ concat (map (\<lambda>k. tuple_lookups ops ((rotate_right ops ^^ k) b')) [0, 1, 2, 3]))"

section \<open>Properties: vote aggregation of the root-parallel player\<close>









section \<open>Running the search on the sample board\<close>

lemma upto_0_80: "[0..80] = 0 # 1 # [2..80]"
  by (simp add: upto_rec1)

lemmas grid_defs = grid_env_def grid_place_def all_space_def is_leaf_def expand_from_leaf_def
  simulate_winner_def tree_init_def mk_node_def rave_init_def select_root_to_leaf_def
  select_root_to_leaf_par_def select_loop.simps playout.simps
  iteration_def iteration_par_def total_cnt_incr_def win_cnt_incr_def rave_total_incr_def
  rave_win_incr_def vec_incr_def upto_0_80

lemmas grid2048_defs = grid_ops_def grid_slide_def grid_slide_up_def grid_slide_down_def
  grid_slide_left_def grid_slide_right_def grid_row_left_def grid_rotate_right_def
  grid_rotate_left_def

lemmas player2048_defs = expectation_def best_slide_def legal_values_def empty_cells_def
  estimate_value_def tuple_pass_def tuple_sum_def eval_nat_numeral upt_rec[of _ 16] FLT_MAX_def

section \<open>Properties: backup\<close>

lemma length_total_cnt_incr [simp]: "length (total_cnt_incr n ns) = length ns"
  by (simp add: total_cnt_incr_def)

lemma length_win_cnt_incr [simp]: "length (win_cnt_incr n ns) = length ns"
  by (simp add: win_cnt_incr_def)

lemma nth_total_cnt_incr:
  "i < length ns \<Longrightarrow> total_cnt_incr n ns ! i =
     (if i = n then (ns ! i)\<lparr>total_cnt := total_cnt (ns ! i) + 1\<rparr> else ns ! i)"
  by (simp add: total_cnt_incr_def nth_list_update)

lemma nth_win_cnt_incr:
  "i < length ns \<Longrightarrow> win_cnt_incr n ns ! i =
     (if i = n then (ns ! i)\<lparr>win_cnt := win_cnt (ns ! i) + 1\<rparr> else ns ! i)"
  by (simp add: win_cnt_incr_def nth_list_update)

text \<open>The counters are the only fields the backup writes, also behind a stray pointer.\<close>

lemma board_total_cnt_incr [simp]: "board (total_cnt_incr n ns ! k) = board (ns ! k)"
  by (cases "n < length ns"; cases "k = n") (simp_all add: total_cnt_incr_def list_update_beyond)

lemma board_win_cnt_incr [simp]: "board (win_cnt_incr n ns ! k) = board (ns ! k)"
  by (cases "n < length ns"; cases "k = n") (simp_all add: win_cnt_incr_def list_update_beyond)

lemma place_pos_total_cnt_incr [simp]: "place_pos (total_cnt_incr n ns ! k) = place_pos (ns ! k)"
  by (cases "n < length ns"; cases "k = n") (simp_all add: total_cnt_incr_def list_update_beyond)

lemma place_pos_win_cnt_incr [simp]: "place_pos (win_cnt_incr n ns ! k) = place_pos (ns ! k)"
  by (cases "n < length ns"; cases "k = n") (simp_all add: win_cnt_incr_def list_update_beyond)

lemma back_propagate_par_nth:
  "length (back_propagate_par env this path winner ns) = length ns \<and>
   (\<forall>i < length ns. back_propagate_par env this path winner ns ! i =
      (ns ! i)\<lparr>win_cnt := win_cnt (ns ! i) +
                   (if winner = who_take_turns env (board (ns ! this))
                    then int (count_list path i) else 0),
                total_cnt := total_cnt (ns ! i) + int (count_list path i)\<rparr>)"
proof (induction path arbitrary: ns)
  case Nil
  show ?case by simp
next
  case (Cons n path)
  show ?case
  proof (cases "winner = who_take_turns env (board (ns ! this))")
    case True
    have step: "back_propagate_par env this (n # path) winner ns =
        back_propagate_par env this path winner (win_cnt_incr n (total_cnt_incr n ns))"
      using True by simp
    show ?thesis
      unfolding step using Cons.IH[of "win_cnt_incr n (total_cnt_incr n ns)"] True
      by (auto simp: nth_total_cnt_incr nth_win_cnt_incr)
  next
    case False
    have step: "back_propagate_par env this (n # path) winner ns =
        back_propagate_par env this path winner (total_cnt_incr n ns)"
      using False by simp
    show ?thesis
      unfolding step using Cons.IH[of "total_cnt_incr n ns"] False
      by (auto simp: nth_total_cnt_incr)
  qed
qed

lemma back_propagate_nodes:
  "fst (back_propagate env this path winner (ns, r)) = back_propagate_par env this path winner ns"
proof (induction path arbitrary: ns r)
  case Nil
  show ?case by simp
next
  case (Cons n path)
  show ?case
  proof (cases "winner = who_take_turns env (board (ns ! this))")
    case True
    then show ?thesis
      using Cons.IH[of "win_cnt_incr n (total_cnt_incr n ns)"] by (simp add: Let_def)
  next
    case False
    then show ?thesis
      using Cons.IH[of "total_cnt_incr n ns"] by (simp add: Let_def)
  qed
qed

text \<open>
  Claim C7.  In both variants the backup adds to \<open>total_cnt\<close> of a node the number of
  times the node stands on the path (one for a node visited once, nothing for a node off
  the path), and adds the same number to \<open>win_cnt\<close> exactly when the simulated winner is
  the side to move on the board of \<open>this\<close>, the node the search was called on (the
  root): the test is the same for every node of the path and does not look at the side
  to move at the visited node.
\<close>

theorem back_propagate_counters:
  assumes "i < length ns"
  shows "total_cnt (back_propagate_par env this path winner ns ! i)
           = total_cnt (ns ! i) + int (count_list path i)
       \<and> win_cnt (back_propagate_par env this path winner ns ! i)
           = win_cnt (ns ! i) + (if winner = who_take_turns env (board (ns ! this))
                                 then int (count_list path i) else 0)
       \<and> total_cnt (fst (back_propagate env this path winner (ns, r)) ! i)
           = total_cnt (ns ! i) + int (count_list path i)
       \<and> win_cnt (fst (back_propagate env this path winner (ns, r)) ! i)
           = win_cnt (ns ! i) + (if winner = who_take_turns env (board (ns ! this))
                                 then int (count_list path i) else 0)"
  using assms back_propagate_par_nth[of env this path winner ns]
  by (simp add: back_propagate_nodes)

text \<open>
  A root with Black to move, its child with White to move, and a third node off the
  path \<open>[0, 1]\<close>: with winner Black both counters of the child (where White is to move)
  go up, with winner White only \<open>total_cnt\<close>.
\<close>

theorem back_propagate_counters_witness:
  "total_cnt (back_propagate_par grid_env 0 [0, 1] Black
      [mk_node ([], Black) (- 1), mk_node ([4], White) 4, mk_node ([7], White) 7] ! 1) = 1
   \<and> win_cnt (back_propagate_par grid_env 0 [0, 1] Black
      [mk_node ([], Black) (- 1), mk_node ([4], White) 4, mk_node ([7], White) 7] ! 1) = 1
   \<and> win_cnt (fst (back_propagate grid_env 0 [0, 1] White
      ([mk_node ([], Black) (- 1), mk_node ([4], White) 4, mk_node ([7], White) 7], rave_init)) ! 1) = 0
   \<and> total_cnt (fst (back_propagate grid_env 0 [0, 1] White
      ([mk_node ([], Black) (- 1), mk_node ([4], White) 4, mk_node ([7], White) 7], rave_init)) ! 2) = 0"
  using back_propagate_counters[of 1
          "[mk_node ([], Black) (- 1), mk_node ([4], White) 4, mk_node ([7], White) 7]"
          grid_env 0 "[0, 1]" Black rave_init]
        back_propagate_counters[of 1
          "[mk_node ([], Black) (- 1), mk_node ([4], White) 4, mk_node ([7], White) 7]"
          grid_env 0 "[0, 1]" White rave_init]
        back_propagate_counters[of 2
          "[mk_node ([], Black) (- 1), mk_node ([4], White) 4, mk_node ([7], White) 7]"
          grid_env 0 "[0, 1]" White rave_init]
  by (simp add: mk_node_def grid_env_def)

section \<open>Properties: selection and expansion\<close>

lemma scan_children_result:
  "scan_children score ks m c0 = Inr (Some c) \<Longrightarrow>
     c0 = Some c \<or> (c \<in> set ks \<and> (\<exists>v. score c = Inr v))"
proof (induction ks arbitrary: m c0)
  case Nil
  then show ?case by simp
next
  case (Cons k ks)
  from Cons.prems obtain tmp where tmp: "score k = Inr tmp"
    by (cases "score k") auto
  show ?case
  proof (cases "tmp > m")
    case True
    with Cons.prems tmp have "scan_children score ks tmp (Some k) = Inr (Some c)" by simp
    from Cons.IH[OF this] tmp show ?thesis by auto
  next
    case False
    with Cons.prems tmp have "scan_children score ks m c0 = Inr (Some c)" by simp
    from Cons.IH[OF this] show ?thesis by auto
  qed
qed

lemma at_node_Inr: "at_node ns score k = Inr v \<Longrightarrow> k < length ns"
  by (simp add: at_node_def split: if_splits)

lemma select_loop_path:
  assumes "select_loop env own opp who ns cur vec = Some y"
  shows "\<forall>path. y = Inr path \<longrightarrow>
           cur < length ns \<and> (\<exists>rest. path = vec @ rest \<and> (\<forall>x\<in>set rest. x < length ns))"
proof (rule select_loop.raw_induct[where P = "\<lambda>env own opp who ns cur vec y.
          \<forall>path. y = Inr path \<longrightarrow>
            cur < length ns \<and> (\<exists>rest. path = vec @ rest \<and> (\<forall>x\<in>set rest. x < length ns))",
        OF _ assms])
  fix f :: "('a, 'b) env \<Rightarrow> ('a node \<Rightarrow> fault + real) \<Rightarrow> ('a node \<Rightarrow> fault + real) \<Rightarrow> piece
     \<Rightarrow> 'a node list \<Rightarrow> nat \<Rightarrow> nat list \<Rightarrow> (fault + nat list) option"
    and env own opp who ns cur vec y
  assume IH: "\<And>env own opp who ns cur vec y. f env own opp who ns cur vec = Some y \<Longrightarrow>
          \<forall>path. y = Inr path \<longrightarrow>
            cur < length ns \<and> (\<exists>rest. path = vec @ rest \<and> (\<forall>x\<in>set rest. x < length ns))"
    and body: "(if \<not> cur < length ns then Some (Inl Null_pointer)
      else if \<not> is_leaf env (ns ! cur)
           then if length (child (ns ! cur)) = 0 then Some (Inr vec)
                else case scan_children
                           (at_node ns
                             (if who = who_take_turns env (board (ns ! cur))
                              then own else opp))
                           (child (ns ! cur)) (- FLT_MAX) None of
                     Inl e \<Rightarrow> Some (Inl e)
                     | Inr None \<Rightarrow> Some (Inl Uninitialised)
                     | Inr (Some c) \<Rightarrow> f env own opp who ns c (vec @ [c])
           else Some (Inr vec)) = Some y"
  show "\<forall>path. y = Inr path \<longrightarrow>
            cur < length ns \<and> (\<exists>rest. path = vec @ rest \<and> (\<forall>x\<in>set rest. x < length ns))"
  proof (intro allI impI)
    fix path assume y: "y = Inr path"
    from body y have cur: "cur < length ns" by (auto split: if_splits)
    show "cur < length ns \<and> (\<exists>rest. path = vec @ rest \<and> (\<forall>x\<in>set rest. x < length ns))"
    proof (cases "\<not> is_leaf env (ns ! cur) \<and> length (child (ns ! cur)) \<noteq> 0")
      case False
      with body y cur have "path = vec" by (auto split: if_splits)
      with cur show ?thesis by simp
    next
      case True
      let ?sc = "scan_children
                   (at_node ns (if who = who_take_turns env (board (ns ! cur)) then own else opp))
                   (child (ns ! cur)) (- FLT_MAX) None"
      from body y cur True obtain c where c: "?sc = Inr (Some c)"
        and rec: "f env own opp who ns c (vec @ [c]) = Some (Inr path)"
        by (auto split: if_splits sum.splits option.splits)
      from scan_children_result[OF c] have "c < length ns"
        by (auto dest: at_node_Inr)
      from IH[OF rec] obtain rest where rest: "path = (vec @ [c]) @ rest"
        "\<forall>x\<in>set rest. x < length ns" by blast
      have "path = vec @ (c # rest)" using rest(1) by simp
      moreover have "\<forall>x\<in>set (c # rest). x < length ns" using rest(2) \<open>c < length ns\<close> by simp
      ultimately show ?thesis using cur by blast
    qed
  qed
qed

lemma select_root_to_leaf_path:
  assumes "select_root_to_leaf env this who ns rt rw = Some (Inr path)"
  shows "path \<noteq> [] \<and> hd path = this \<and> (\<forall>x\<in>set path. x < length ns)"
proof -
  from select_loop_path[OF assms[unfolded select_root_to_leaf_def]]
  obtain rest where "this < length ns" "path = [this] @ rest" "\<forall>x\<in>set rest. x < length ns"
    by blast
  then show ?thesis by auto
qed

lemma select_root_to_leaf_par_path:
  assumes "select_root_to_leaf_par env this who ns = Some (Inr path)"
  shows "path \<noteq> [] \<and> hd path = this \<and> (\<forall>x\<in>set path. x < length ns)"
proof -
  from select_loop_path[OF assms[unfolded select_root_to_leaf_par_def]]
  obtain rest where "this < length ns" "path = [this] @ rest" "\<forall>x\<in>set rest. x < length ns"
    by blast
  then show ?thesis by auto
qed

lemma first_legal_Some:
  "first_legal env b vec = Some (pos, b') \<Longrightarrow> pos \<in> set vec \<and> place env b pos = Some b'"
  by (induction vec) (auto split: option.splits)

lemma first_legal_None:
  "first_legal env b vec = None \<longleftrightarrow> (\<forall>p\<in>set vec. place env b p = None)"
  by (induction vec) (auto split: option.splits)

text \<open>What \<^verbatim>\<open>expand_from_leaf\<close> does to the node store.\<close>

lemma expand_from_leaf_cases:
  assumes "expand_from_leaf env this ns g = (ns', g', k)"
  shows "(k = this \<and> ns' = ns \<and> first_legal env (board (ns ! this)) (fst (all_space env g)) = None)
       \<or> (\<exists>pos b. first_legal env (board (ns ! this)) (fst (all_space env g)) = Some (pos, b)
             \<and> k = length ns
             \<and> ns' = ns[this := (ns ! this)\<lparr>child := child (ns ! this) @ [length ns]\<rparr>]
                       @ [(mk_node b pos)\<lparr>parent := Some this\<rparr>])"
  using assms
  by (auto simp: expand_from_leaf_def Let_def split: prod.splits option.splits)

section \<open>Properties: the counters of a node\<close>

lemma back_propagate_par_counters:
  assumes "\<forall>i < length ns. 0 \<le> win_cnt (ns ! i) \<and> win_cnt (ns ! i) \<le> total_cnt (ns ! i)"
  shows "\<forall>i < length (back_propagate_par env this path winner ns).
           0 \<le> win_cnt (back_propagate_par env this path winner ns ! i)
         \<and> win_cnt (back_propagate_par env this path winner ns ! i)
             \<le> total_cnt (back_propagate_par env this path winner ns ! i)"
proof (intro allI impI)
  fix i assume "i < length (back_propagate_par env this path winner ns)"
  with back_propagate_par_nth[of env this path winner ns] have i: "i < length ns"
    and eq: "back_propagate_par env this path winner ns ! i =
      (ns ! i)\<lparr>win_cnt := win_cnt (ns ! i) +
                   (if winner = who_take_turns env (board (ns ! this))
                    then int (count_list path i) else 0),
                total_cnt := total_cnt (ns ! i) + int (count_list path i)\<rparr>"
    by simp_all
  from assms i have "0 \<le> win_cnt (ns ! i)" "win_cnt (ns ! i) \<le> total_cnt (ns ! i)" by simp_all
  then show "0 \<le> win_cnt (back_propagate_par env this path winner ns ! i)
         \<and> win_cnt (back_propagate_par env this path winner ns ! i)
             \<le> total_cnt (back_propagate_par env this path winner ns ! i)"
    unfolding eq by simp
qed

lemma expand_from_leaf_counters:
  assumes "expand_from_leaf env this ns g = (ns', g', k)"
    and "\<forall>i < length ns. 0 \<le> win_cnt (ns ! i) \<and> win_cnt (ns ! i) \<le> total_cnt (ns ! i)"
  shows "\<forall>i < length ns'. 0 \<le> win_cnt (ns' ! i) \<and> win_cnt (ns' ! i) \<le> total_cnt (ns' ! i)"
proof -
  from expand_from_leaf_cases[OF assms(1)] show ?thesis
  proof (elim disjE exE conjE)
    assume "ns' = ns"
    with assms(2) show ?thesis by simp
  next
    fix pos b
    assume ns': "ns' = ns[this := (ns ! this)\<lparr>child := child (ns ! this) @ [length ns]\<rparr>]
                       @ [(mk_node b pos)\<lparr>parent := Some this\<rparr>]"
    show ?thesis
    proof (intro allI impI)
      fix i assume "i < length ns'"
      then have "i < length ns \<or> i = length ns" using ns' by auto
      then show "0 \<le> win_cnt (ns' ! i) \<and> win_cnt (ns' ! i) \<le> total_cnt (ns' ! i)"
      proof
        assume i: "i < length ns"
        then show ?thesis using assms(2) ns' by (cases "i = this") (simp_all add: nth_append)
      next
        assume "i = length ns"
        then show ?thesis using ns' by (simp add: nth_append mk_node_def)
      qed
    qed
  qed
qed

lemma iteration_par_counters:
  assumes "iteration_par env this (ns, g) = Some (Inr (ns', g'))"
    and "\<forall>i < length ns. 0 \<le> win_cnt (ns ! i) \<and> win_cnt (ns ! i) \<le> total_cnt (ns ! i)"
  shows "\<forall>i < length ns'. 0 \<le> win_cnt (ns' ! i) \<and> win_cnt (ns' ! i) \<le> total_cnt (ns' ! i)"
proof -
  from assms(1) obtain path ns1 g1 k winner where
    ex: "expand_from_leaf env (last path) ns g = (ns1, g1, k)"
    and res: "ns' = back_propagate_par env this (if k \<noteq> last path then path @ [k] else path) winner ns1"
    by (auto simp: iteration_par_def Let_def split: option.splits sum.splits prod.splits)
  from expand_from_leaf_counters[OF ex assms(2)] show ?thesis
    unfolding res by (rule back_propagate_par_counters)
qed

lemma iteration_counters:
  assumes "iteration env this (ns, g, r) = Some (Inr (ns', g', r'))"
    and "\<forall>i < length ns. 0 \<le> win_cnt (ns ! i) \<and> win_cnt (ns ! i) \<le> total_cnt (ns ! i)"
  shows "\<forall>i < length ns'. 0 \<le> win_cnt (ns' ! i) \<and> win_cnt (ns' ! i) \<le> total_cnt (ns' ! i)"
proof -
  from assms(1) obtain path ns1 g1 k winner where
    ex: "expand_from_leaf env (last path) ns g = (ns1, g1, k)"
    and res: "back_propagate env this (if k \<noteq> last path then path @ [k] else path) winner (ns1, r) = (ns', r')"
    by (auto simp: iteration_def Let_def split: option.splits sum.splits prod.splits)
  from res have "ns' = back_propagate_par env this (if k \<noteq> last path then path @ [k] else path) winner ns1"
    using back_propagate_nodes[of env this "if k \<noteq> last path then path @ [k] else path" winner ns1 r]
    by (metis fst_conv)
  with expand_from_leaf_counters[OF ex assms(2)] show ?thesis
    by (simp add: back_propagate_par_counters)
qed

lemma iterations_par_counters:
  assumes "iterations_par env this k (ns, g) = Some (Inr (ns', g'))"
    and "\<forall>i < length ns. 0 \<le> win_cnt (ns ! i) \<and> win_cnt (ns ! i) \<le> total_cnt (ns ! i)"
  shows "\<forall>i < length ns'. 0 \<le> win_cnt (ns' ! i) \<and> win_cnt (ns' ! i) \<le> total_cnt (ns' ! i)"
  using assms
proof (induction k arbitrary: ns g)
  case 0
  then show ?case by simp
next
  case (Suc k)
  from Suc.prems(1) obtain ns1 g1 where it: "iteration_par env this (ns, g) = Some (Inr (ns1, g1))"
    and rest: "iterations_par env this k (ns1, g1) = Some (Inr (ns', g'))"
    by (auto split: option.splits sum.splits)
  from Suc.IH[OF rest iteration_par_counters[OF it Suc.prems(2)]] show ?case .
qed

lemma iterations_counters:
  assumes "iterations env this k (ns, g, r) = Some (Inr (ns', g', r'))"
    and "\<forall>i < length ns. 0 \<le> win_cnt (ns ! i) \<and> win_cnt (ns ! i) \<le> total_cnt (ns ! i)"
  shows "\<forall>i < length ns'. 0 \<le> win_cnt (ns' ! i) \<and> win_cnt (ns' ! i) \<le> total_cnt (ns' ! i)"
  using assms
proof (induction k arbitrary: ns g r)
  case 0
  then show ?case by simp
next
  case (Suc k)
  from Suc.prems(1) obtain ns1 g1 r1 where it: "iteration env this (ns, g, r) = Some (Inr (ns1, g1, r1))"
    and rest: "iterations env this k (ns1, g1, r1) = Some (Inr (ns', g', r'))"
    by (auto split: option.splits sum.splits)
  from Suc.IH[OF rest iteration_counters[OF it Suc.prems(2)]] show ?case .
qed

text \<open>
  Claim C9.  In both variants, every node of the tree that \<^verbatim>\<open>take_action\<close> starts from a
  single fresh root satisfies \<open>0 \<le> win_cnt \<le> total_cnt\<close> after any number \<open>k\<close> of completed
  passes of the search loop.
\<close>

theorem counters_invariant:
  "(iterations env 0 k (tree_init state, g, rave_init) = Some (Inr (ns, g', r)) \<longrightarrow>
      (\<forall>n\<in>set ns. 0 \<le> win_cnt n \<and> win_cnt n \<le> total_cnt n))
 \<and> (iterations_par env 0 k (tree_init state, g) = Some (Inr (ns, g')) \<longrightarrow>
      (\<forall>n\<in>set ns. 0 \<le> win_cnt n \<and> win_cnt n \<le> total_cnt n))"
proof -
  have init: "\<forall>i < length (tree_init state).
      0 \<le> win_cnt (tree_init state ! i) \<and> win_cnt (tree_init state ! i) \<le> total_cnt (tree_init state ! i)"
    by (simp add: tree_init_def mk_node_def)
  show ?thesis
    using iterations_counters[OF _ init, of env 0 k g rave_init ns g' r]
          iterations_par_counters[OF _ init, of env 0 k g ns g']
    by (auto simp: all_set_conv_all_nth)
qed

text \<open>Two passes on the empty sample board, Black to move, in each variant.\<close>

theorem counters_invariant_witness:
  "(\<exists>ns g r. iterations grid_env 0 (Suc (Suc 0)) (tree_init ([], Black), 0, rave_init)
                = Some (Inr (ns, g, r))
       \<and> length ns = 3 \<and> list_all (\<lambda>n. 0 \<le> win_cnt n \<and> win_cnt n \<le> total_cnt n) ns)
 \<and> (\<exists>ns g. iterations_par grid_env 0 (Suc (Suc 0)) (tree_init ([], Black), 0)
                = Some (Inr (ns, g))
       \<and> length ns = 3 \<and> list_all (\<lambda>n. 0 \<le> win_cnt n \<and> win_cnt n \<le> total_cnt n) ns)"
proof -
  have "\<exists>ns g r. iterations grid_env 0 (Suc (Suc 0)) (tree_init ([], Black), 0, rave_init)
                = Some (Inr (ns, g, r)) \<and> length ns = 3"
    by (simp add: grid_defs)
  then obtain ns g r where run:
    "iterations grid_env 0 (Suc (Suc 0)) (tree_init ([], Black), 0, rave_init) = Some (Inr (ns, g, r))"
    and len: "length ns = 3" by blast
  have "\<exists>ns g. iterations_par grid_env 0 (Suc (Suc 0)) (tree_init ([], Black), 0)
                = Some (Inr (ns, g)) \<and> length ns = 3"
    by (simp add: grid_defs)
  then obtain ns' g' where run':
    "iterations_par grid_env 0 (Suc (Suc 0)) (tree_init ([], Black), 0) = Some (Inr (ns', g'))"
    and len': "length ns' = 3" by blast
  from counters_invariant[of grid_env "Suc (Suc 0)" "([], Black)" 0 ns g r] run
  have a: "list_all (\<lambda>n. 0 \<le> win_cnt n \<and> win_cnt n \<le> total_cnt n) ns"
    by (simp add: list_all_iff)
  from counters_invariant[of grid_env "Suc (Suc 0)" "([], Black)" 0 ns' g' r] run'
  have b: "list_all (\<lambda>n. 0 \<le> win_cnt n \<and> win_cnt n \<le> total_cnt n) ns'"
    by (simp add: list_all_iff)
  from run len a run' len' b show ?thesis by blast
qed

section \<open>Properties: the RAVE tables\<close>

lemma rave_total_incr_simps [simp]:
  "rave_total (rave_total_incr p r) =
     (if 0 \<le> p \<and> p < int (length (rave_total r))
      then (rave_total r)[nat p := rave_total r ! nat p + 1] else rave_total r)"
  "rave_win (rave_total_incr p r) = rave_win r"
  "oob (rave_total_incr p r) =
     (if 0 \<le> p \<and> p < int (length (rave_total r)) then oob r else oob r @ [p])"
  by (simp_all add: rave_total_incr_def vec_incr_def)

lemma rave_win_incr_simps [simp]:
  "rave_win (rave_win_incr p r) =
     (if 0 \<le> p \<and> p < int (length (rave_win r))
      then (rave_win r)[nat p := rave_win r ! nat p + 1] else rave_win r)"
  "rave_total (rave_win_incr p r) = rave_total r"
  "oob (rave_win_incr p r) =
     (if 0 \<le> p \<and> p < int (length (rave_win r)) then oob r else oob r @ [p])"
  by (simp_all add: rave_win_incr_def vec_incr_def)

text \<open>One pass of the loop of \<^verbatim>\<open>back_propagate\<close>.\<close>

lemma back_propagate_won:
  "winner = who_take_turns env (board (ns ! this)) \<Longrightarrow>
   back_propagate env this (n # path) winner (ns, r) =
     back_propagate env this path winner
       (win_cnt_incr n (total_cnt_incr n ns),
        rave_win_incr (place_pos (ns ! n)) (rave_total_incr (place_pos (ns ! n)) r))"
  by (simp add: Let_def)

lemma back_propagate_lost:
  "winner \<noteq> who_take_turns env (board (ns ! this)) \<Longrightarrow>
   back_propagate env this (n # path) winner (ns, r) =
     back_propagate env this path winner
       (total_cnt_incr n ns, rave_total_incr (place_pos (ns ! n)) r)"
  by (simp add: Let_def)

lemma back_propagate_rave:
  "length (rave_total (snd (back_propagate env this path winner (ns, r)))) = length (rave_total r)
 \<and> length (rave_win (snd (back_propagate env this path winner (ns, r)))) = length (rave_win r)
 \<and> (\<forall>j < length (rave_total r).
       rave_total (snd (back_propagate env this path winner (ns, r))) ! j =
         rave_total r ! j + int (length (filter (\<lambda>n. place_pos (ns ! n) = int j) path)))"
proof (induction path arbitrary: ns r)
  case Nil
  show ?case by simp
next
  case (Cons n path)
  let ?p = "place_pos (ns ! n)"
  show ?case
  proof (cases "winner = who_take_turns env (board (ns ! this))")
    case True
    let ?ns = "win_cnt_incr n (total_cnt_incr n ns)"
    let ?r = "rave_win_incr ?p (rave_total_incr ?p r)"
    have len: "length (rave_total ?r) = length (rave_total r)" "length (rave_win ?r) = length (rave_win r)"
      by simp_all
    have cell: "rave_total ?r ! j = rave_total r ! j + (if ?p = int j then 1 else 0)"
      if "j < length (rave_total r)" for j
      using that by (auto simp: nth_list_update)
    from Cons.IH[where ns = ?ns and r = ?r] len cell show ?thesis
      unfolding back_propagate_won[OF True] by auto
  next
    case False
    let ?ns = "total_cnt_incr n ns"
    let ?r = "rave_total_incr ?p r"
    have len: "length (rave_total ?r) = length (rave_total r)" "length (rave_win ?r) = length (rave_win r)"
      by simp_all
    have cell: "rave_total ?r ! j = rave_total r ! j + (if ?p = int j then 1 else 0)"
      if "j < length (rave_total r)" for j
      using that by (auto simp: nth_list_update)
    from Cons.IH[where ns = ?ns and r = ?r] len cell show ?thesis
      unfolding back_propagate_lost[OF False] by auto
  qed
qed

text \<open>A node whose \<open>place_pos\<close> is no index of the table leaves its mark in \<open>oob\<close>.\<close>

lemma back_propagate_oob_mono:
  "set (oob r) \<subseteq> set (oob (snd (back_propagate env this path winner (ns, r))))"
proof (induction path arbitrary: ns r)
  case Nil
  show ?case by simp
next
  case (Cons n path)
  let ?p = "place_pos (ns ! n)"
  show ?case
  proof (cases "winner = who_take_turns env (board (ns ! this))")
    case True
    have "set (oob r) \<subseteq> set (oob (rave_win_incr ?p (rave_total_incr ?p r)))" by auto
    with Cons.IH[where ns = "win_cnt_incr n (total_cnt_incr n ns)"
                   and r = "rave_win_incr ?p (rave_total_incr ?p r)"]
    show ?thesis unfolding back_propagate_won[OF True] by blast
  next
    case False
    have "set (oob r) \<subseteq> set (oob (rave_total_incr ?p r))" by auto
    with Cons.IH[where ns = "total_cnt_incr n ns" and r = "rave_total_incr ?p r"]
    show ?thesis unfolding back_propagate_lost[OF False] by blast
  qed
qed

lemma back_propagate_oob:
  assumes "n \<in> set path"
    and "\<not> (0 \<le> place_pos (ns ! n) \<and> place_pos (ns ! n) < int (length (rave_total r)))"
  shows "place_pos (ns ! n) \<in> set (oob (snd (back_propagate env this path winner (ns, r))))"
  using assms
proof (induction path arbitrary: ns r)
  case Nil
  then show ?case by simp
next
  case (Cons m path)
  let ?p = "place_pos (ns ! m)"
  let ?r1 = "rave_total_incr ?p r"
  let ?r2 = "rave_win_incr ?p ?r1"
  let ?ns1 = "total_cnt_incr m ns"
  let ?ns2 = "win_cnt_incr m ?ns1"
  show ?case
  proof (cases "winner = who_take_turns env (board (ns ! this))")
    case won: True
    show ?thesis
    proof (cases "m = n")
      case True
      with Cons.prems(2) have "place_pos (ns ! n) \<in> set (oob ?r2)" by auto
      with back_propagate_oob_mono[of ?r2 env this path winner ?ns2]
      show ?thesis unfolding back_propagate_won[OF won] by blast
    next
      case False
      with Cons.prems have n: "n \<in> set path" by simp
      have b: "\<not> (0 \<le> place_pos (?ns2 ! n) \<and> place_pos (?ns2 ! n) < int (length (rave_total ?r2)))"
        using Cons.prems(2) by simp
      from Cons.IH[OF n b] show ?thesis unfolding back_propagate_won[OF won] by simp
    qed
  next
    case lost: False
    show ?thesis
    proof (cases "m = n")
      case True
      with Cons.prems(2) have "place_pos (ns ! n) \<in> set (oob ?r1)" by auto
      with back_propagate_oob_mono[of ?r1 env this path winner ?ns1]
      show ?thesis unfolding back_propagate_lost[OF lost] by blast
    next
      case False
      with Cons.prems have n: "n \<in> set path" by simp
      have a: "\<not> (0 \<le> place_pos (?ns1 ! n) \<and> place_pos (?ns1 ! n) < int (length (rave_total ?r1)))"
        using Cons.prems(2) by simp
      from Cons.IH[OF n a] show ?thesis unfolding back_propagate_lost[OF lost] by simp
    qed
  qed
qed

section \<open>Properties: the invariant of the RAVE search\<close>

lemma count_list_le_filter:
  "P i \<Longrightarrow> count_list xs i \<le> length (filter P xs)"
  by (induction xs) auto

lemma count_list_pos: "i \<in> set xs \<Longrightarrow> 1 \<le> count_list xs i"
  using count_list_0_iff[of xs i] by (cases "count_list xs i") auto

text \<open>
  The backup establishes the invariant when every node that had not been visited is on
  the path.
\<close>

lemma back_propagate_rave_inv:
  assumes len: "length (rave_total r) = 81" "length (rave_win r) = 81"
    and nonneg: "\<forall>j < 81. 0 \<le> rave_total r ! j"
    and tot: "\<forall>i < length ns. 0 \<le> total_cnt (ns ! i)"
    and nodes: "\<forall>i < length ns. 0 < i \<longrightarrow>
         (1 \<le> total_cnt (ns ! i) \<or> i \<in> set path)
       \<and> 0 \<le> place_pos (ns ! i) \<and> place_pos (ns ! i) < 81
       \<and> total_cnt (ns ! i) \<le> rave_total r ! nat (place_pos (ns ! i))
       \<and> (\<exists>p < length ns. parent (ns ! i) = Some p \<and> (1 \<le> total_cnt (ns ! p) \<or> p \<in> set path))"
    and bp: "back_propagate env this path winner (ns, r) = (ns', r')"
  shows "rave_inv ns' r'"
proof -
  have ns': "ns' = back_propagate_par env this path winner ns"
    using back_propagate_nodes[of env this path winner ns r] bp by simp
  have r': "r' = snd (back_propagate env this path winner (ns, r))" using bp by simp
  from back_propagate_par_nth[of env this path winner ns] ns'
  have lenns: "length ns' = length ns"
    and node: "\<And>i. i < length ns \<Longrightarrow> ns' ! i =
      (ns ! i)\<lparr>win_cnt := win_cnt (ns ! i) +
                   (if winner = who_take_turns env (board (ns ! this))
                    then int (count_list path i) else 0),
                total_cnt := total_cnt (ns ! i) + int (count_list path i)\<rparr>"
    by simp_all
  from back_propagate_rave[of env this path winner ns r] r' len
  have lenr: "length (rave_total r') = 81" "length (rave_win r') = 81"
    and cell: "\<And>j. j < 81 \<Longrightarrow> rave_total r' ! j =
         rave_total r ! j + int (length (filter (\<lambda>n. place_pos (ns ! n) = int j) path))"
    by simp_all
  have total': "total_cnt (ns' ! i) = total_cnt (ns ! i) + int (count_list path i)"
    if "i < length ns" for i using node[OF that] by simp
  have visited: "1 \<le> total_cnt (ns' ! i)"
    if "i < length ns" "1 \<le> total_cnt (ns ! i) \<or> i \<in> set path" for i
  proof -
    from that(2) show ?thesis
    proof
      assume "1 \<le> total_cnt (ns ! i)"
      then show ?thesis using total'[OF that(1)] by simp
    next
      assume "i \<in> set path"
      from count_list_pos[OF this] have "1 \<le> int (count_list path i)" by simp
      moreover from tot that(1) have "0 \<le> total_cnt (ns ! i)" by simp
      ultimately show ?thesis using total'[OF that(1)] by simp
    qed
  qed
  have a: "\<forall>j < 81. 0 \<le> rave_total r' ! j" using nonneg cell by simp
  have b: "\<forall>i < length ns'. 0 \<le> total_cnt (ns' ! i)" using tot total' lenns by simp
  have c: "\<forall>i < length ns'. 0 < i \<longrightarrow>
         1 \<le> total_cnt (ns' ! i)
       \<and> 0 \<le> place_pos (ns' ! i) \<and> place_pos (ns' ! i) < 81
       \<and> total_cnt (ns' ! i) \<le> rave_total r' ! nat (place_pos (ns' ! i))
       \<and> (\<exists>p < length ns'. parent (ns' ! i) = Some p \<and> 1 \<le> total_cnt (ns' ! p))"
  proof (intro allI impI)
    fix i assume "i < length ns'" and pos: "0 < i"
    then have i: "i < length ns" using lenns by simp
    from nodes i pos have v: "1 \<le> total_cnt (ns ! i) \<or> i \<in> set path"
      and rng: "0 \<le> place_pos (ns ! i)" "place_pos (ns ! i) < 81"
      and le: "total_cnt (ns ! i) \<le> rave_total r ! nat (place_pos (ns ! i))"
      and par: "\<exists>p < length ns. parent (ns ! i) = Some p \<and> (1 \<le> total_cnt (ns ! p) \<or> p \<in> set path)"
      by blast+
    have same: "place_pos (ns' ! i) = place_pos (ns ! i)" "parent (ns' ! i) = parent (ns ! i)"
      using node[OF i] by simp_all
    let ?j = "nat (place_pos (ns ! i))"
    have j: "?j < 81" "int ?j = place_pos (ns ! i)" using rng by simp_all
    have "place_pos (ns ! i) = int ?j" using rng by simp
    then have "count_list path i \<le> length (filter (\<lambda>n. place_pos (ns ! n) = int ?j) path)"
      by (rule count_list_le_filter)
    with cell[OF j(1)] le total'[OF i]
    have "total_cnt (ns' ! i) \<le> rave_total r' ! ?j" by simp
    moreover from par obtain p where p: "p < length ns" "parent (ns ! i) = Some p"
      "1 \<le> total_cnt (ns ! p) \<or> p \<in> set path" by blast
    have "\<exists>p < length ns'. parent (ns' ! i) = Some p \<and> 1 \<le> total_cnt (ns' ! p)"
      using p visited[OF p(1) p(3)] same lenns by auto
    ultimately show "1 \<le> total_cnt (ns' ! i)
       \<and> 0 \<le> place_pos (ns' ! i) \<and> place_pos (ns' ! i) < 81
       \<and> total_cnt (ns' ! i) \<le> rave_total r' ! nat (place_pos (ns' ! i))
       \<and> (\<exists>p < length ns'. parent (ns' ! i) = Some p \<and> 1 \<le> total_cnt (ns' ! p))"
      using visited[OF i v] rng same by simp
  qed
  from lenr a b c show ?thesis unfolding rave_inv_def by blast
qed

lemma all_space_range:
  assumes "\<forall>v g. set (fst (shuffle env v g)) \<subseteq> set v"
  shows "\<forall>p \<in> set (fst (all_space env g)). 0 \<le> p \<and> p < 81"
proof -
  from assms have "set (fst (all_space env g)) \<subseteq> set [0..80]"
    unfolding all_space_def by blast
  then show ?thesis by auto
qed

lemma iteration_rave_inv:
  assumes sh: "\<forall>v g. set (fst (shuffle env v g)) \<subseteq> set v"
    and inv: "rave_inv ns r"
    and it: "iteration env 0 (ns, g, r) = Some (Inr (ns', g', r'))"
  shows "rave_inv ns' r'"
proof -
  from it obtain path ns1 g1 k winner where
    sel: "select_root_to_leaf env 0 (who_take_turns env (board (ns ! 0))) ns
            (rave_total r) (rave_win r) = Some (Inr path)"
    and ex: "expand_from_leaf env (last path) ns g = (ns1, g1, k)"
    and bp: "back_propagate env 0 (if k \<noteq> last path then path @ [k] else path) winner (ns1, r)
               = (ns', r')"
    by (auto simp: iteration_def Let_def split: option.splits sum.splits prod.splits)
  from select_root_to_leaf_path[OF sel] have path: "path \<noteq> []" "\<forall>x\<in>set path. x < length ns"
    by simp_all
  then have leaf: "last path < length ns" "last path \<in> set path" by simp_all
  let ?path1 = "if k \<noteq> last path then path @ [k] else path"
  from inv have len: "length (rave_total r) = 81" "length (rave_win r) = 81"
    and nonneg: "\<forall>j < 81. 0 \<le> rave_total r ! j"
    and tot: "\<forall>i < length ns. 0 \<le> total_cnt (ns ! i)"
    and nodes: "\<forall>i < length ns. 0 < i \<longrightarrow>
         1 \<le> total_cnt (ns ! i)
       \<and> 0 \<le> place_pos (ns ! i) \<and> place_pos (ns ! i) < 81
       \<and> total_cnt (ns ! i) \<le> rave_total r ! nat (place_pos (ns ! i))
       \<and> (\<exists>p < length ns. parent (ns ! i) = Some p \<and> 1 \<le> total_cnt (ns ! p))"
    unfolding rave_inv_def by blast+
  from expand_from_leaf_cases[OF ex] show ?thesis
  proof (elim disjE exE conjE)
    assume "k = last path" "ns1 = ns"
    with bp have bp': "back_propagate env 0 path winner (ns, r) = (ns', r')" by simp
    show ?thesis
      by (rule back_propagate_rave_inv[OF len nonneg tot _ bp']) (use nodes in blast)
  next
    fix pos b
    assume fl: "first_legal env (board (ns ! last path)) (fst (all_space env g)) = Some (pos, b)"
      and k: "k = length ns"
      and ns1: "ns1 = ns[last path := (ns ! last path)\<lparr>child := child (ns ! last path) @ [length ns]\<rparr>]
                       @ [(mk_node b pos)\<lparr>parent := Some (last path)\<rparr>]"
    from k leaf(1) have "k \<noteq> last path" by simp
    with bp have bp': "back_propagate env 0 (path @ [k]) winner (ns1, r) = (ns', r')" by simp
    from first_legal_Some[OF fl] all_space_range[OF sh, of g]
    have pos: "0 \<le> pos" "pos < 81" by auto
    have len1: "length ns1 = Suc (length ns)" using ns1 by simp
    have old: "total_cnt (ns1 ! i) = total_cnt (ns ! i) \<and> place_pos (ns1 ! i) = place_pos (ns ! i)
               \<and> parent (ns1 ! i) = parent (ns ! i)" if "i < length ns" for i
      using that ns1 by (cases "i = last path") (simp_all add: nth_append)
    have new: "total_cnt (ns1 ! k) = 0" "place_pos (ns1 ! k) = pos" "parent (ns1 ! k) = Some (last path)"
      using ns1 k by (simp_all add: nth_append mk_node_def)
    have tot1: "\<forall>i < length ns1. 0 \<le> total_cnt (ns1 ! i)"
    proof (intro allI impI)
      fix i assume "i < length ns1"
      then have "i < length ns \<or> i = k" using len1 k by auto
      then show "0 \<le> total_cnt (ns1 ! i)" using tot old new(1) by auto
    qed
    have nodes1: "\<forall>i < length ns1. 0 < i \<longrightarrow>
         (1 \<le> total_cnt (ns1 ! i) \<or> i \<in> set (path @ [k]))
       \<and> 0 \<le> place_pos (ns1 ! i) \<and> place_pos (ns1 ! i) < 81
       \<and> total_cnt (ns1 ! i) \<le> rave_total r ! nat (place_pos (ns1 ! i))
       \<and> (\<exists>p < length ns1. parent (ns1 ! i) = Some p
              \<and> (1 \<le> total_cnt (ns1 ! p) \<or> p \<in> set (path @ [k])))"
    proof (intro allI impI)
      fix i assume "i < length ns1" and ipos: "0 < i"
      then have "i < length ns \<or> i = k" using len1 k by auto
      then show "(1 \<le> total_cnt (ns1 ! i) \<or> i \<in> set (path @ [k]))
       \<and> 0 \<le> place_pos (ns1 ! i) \<and> place_pos (ns1 ! i) < 81
       \<and> total_cnt (ns1 ! i) \<le> rave_total r ! nat (place_pos (ns1 ! i))
       \<and> (\<exists>p < length ns1. parent (ns1 ! i) = Some p
              \<and> (1 \<le> total_cnt (ns1 ! p) \<or> p \<in> set (path @ [k])))"
      proof
        assume i: "i < length ns"
        from nodes i ipos obtain p where p: "p < length ns" "parent (ns ! i) = Some p"
          "1 \<le> total_cnt (ns ! p)" by blast
        have "\<exists>p < length ns1. parent (ns1 ! i) = Some p
              \<and> (1 \<le> total_cnt (ns1 ! p) \<or> p \<in> set (path @ [k]))"
          using p old[OF i] old[OF p(1)] len1 by auto
        with nodes i ipos old[OF i] show ?thesis by simp
      next
        assume i: "i = k"
        have "nat pos < 81" using pos by simp
        with nonneg have "0 \<le> rave_total r ! nat pos" by blast
        moreover have "\<exists>p < length ns1. parent (ns1 ! k) = Some p
              \<and> (1 \<le> total_cnt (ns1 ! p) \<or> p \<in> set (path @ [k]))"
          using new(3) leaf len1 by auto
        ultimately show ?thesis using i new pos by simp
      qed
    qed
    show ?thesis
      by (rule back_propagate_rave_inv[OF len nonneg tot1 nodes1 bp'])
  qed
qed

lemma iterations_rave_inv:
  assumes sh: "\<forall>v g. set (fst (shuffle env v g)) \<subseteq> set v"
    and "rave_inv ns r"
    and "iterations env 0 k (ns, g, r) = Some (Inr (ns', g', r'))"
  shows "rave_inv ns' r'"
  using assms(2,3)
proof (induction k arbitrary: ns g r)
  case 0
  then show ?case by simp
next
  case (Suc k)
  from Suc.prems(2) obtain ns1 g1 r1 where it: "iteration env 0 (ns, g, r) = Some (Inr (ns1, g1, r1))"
    and rest: "iterations env 0 k (ns1, g1, r1) = Some (Inr (ns', g', r'))"
    by (auto split: option.splits sum.splits)
  from Suc.IH[OF iteration_rave_inv[OF sh Suc.prems(1) it] rest] show ?case .
qed

lemma rave_inv_init: "rave_inv (tree_init state) rave_init"
  by (simp add: rave_inv_def tree_init_def rave_init_def mk_node_def)

lemma rave_inv_scores:
  assumes "rave_inv ns r" and "0 < i" and "i < length ns"
  shows "(\<exists>v. win_rate (ns ! i) (rave_total r) (rave_win r) = Inr v)
       \<and> (\<exists>v. ucb ns (ns ! i) (rave_total r) (rave_win r) = Inr v)
       \<and> (\<exists>v. ucb_opponent ns (ns ! i) (rave_total r) (rave_win r) = Inr v)"
proof -
  from assms have len: "length (rave_total r) = 81" "length (rave_win r) = 81"
    and t: "1 \<le> total_cnt (ns ! i)"
    and rng: "0 \<le> place_pos (ns ! i)" "place_pos (ns ! i) < 81"
    and le: "total_cnt (ns ! i) \<le> rave_total r ! nat (place_pos (ns ! i))"
    and par: "\<exists>p < length ns. parent (ns ! i) = Some p \<and> 1 \<le> total_cnt (ns ! p)"
    unfolding rave_inv_def by blast+
  from t le have rt: "rave_total r ! nat (place_pos (ns ! i)) \<noteq> 0" by simp
  have w: "\<exists>v. win_rate (ns ! i) (rave_total r) (rave_win r) = Inr v"
    using t rt rng len by (simp add: win_rate_def fdiv_def vec_read_def)
  from par obtain p where p: "p < length ns" "parent (ns ! i) = Some p" "1 \<le> total_cnt (ns ! p)"
    by blast
  have pt: "parent_total ns (ns ! i) = Inr (total_cnt (ns ! p))"
    using p by (simp add: parent_total_def)
  have "0 \<le> ln (real_of_int (total_cnt (ns ! p)))"
    using p(3) by (intro ln_ge_zero) simp
  moreover have "0 < real_of_int (total_cnt (ns ! i))" using t by simp
  ultimately
  have "0 \<le> ln (real_of_int (total_cnt (ns ! p))) / real_of_int (total_cnt (ns ! i))"
    by (rule divide_nonneg_pos)
  then have "\<not> ln (real_of_int (total_cnt (ns ! p))) / real_of_int (total_cnt (ns ! i)) < 0"
    by (simp only: not_less)
  then have e: "\<exists>x. explore (total_cnt (ns ! p)) (total_cnt (ns ! i)) = Inr x"
    using p(3) t unfolding explore_def fdiv_def by auto
  from w pt e show ?thesis
    by (auto simp: ucb_def ucb_opponent_def)
qed

text \<open>
  Claim C10.  In the RAVE variant, started by \<^verbatim>\<open>take_action\<close> from a fresh root and tables
  of zeros, with a shuffle that returns only positions it was given: after any number
  \<open>k\<close> of completed passes every node \<open>i\<close> other than the root has \<open>total_cnt \<ge> 1\<close>, a
  \<open>place_pos\<close> inside the tables, and \<open>rave_total[place_pos] \<ge> total_cnt\<close>; hence
  \<^verbatim>\<open>win_rate\<close>, \<^verbatim>\<open>ucb\<close> and \<^verbatim>\<open>ucb_opponent\<close> of the node return a number: none of their
  divisions has a zero divisor (and no other fault occurs).
\<close>

theorem rave_divisions_safe:
  assumes "\<forall>v g. set (fst (shuffle env v g)) \<subseteq> set v"
    and "iterations env 0 k (tree_init state, g, rave_init) = Some (Inr (ns, g', r))"
    and "0 < i" and "i < length ns"
  shows "1 \<le> total_cnt (ns ! i)
       \<and> 0 \<le> place_pos (ns ! i) \<and> place_pos (ns ! i) < 81
       \<and> total_cnt (ns ! i) \<le> rave_total r ! nat (place_pos (ns ! i))
       \<and> (\<exists>v. win_rate (ns ! i) (rave_total r) (rave_win r) = Inr v)
       \<and> (\<exists>v. ucb ns (ns ! i) (rave_total r) (rave_win r) = Inr v)
       \<and> (\<exists>v. ucb_opponent ns (ns ! i) (rave_total r) (rave_win r) = Inr v)"
proof -
  have inv: "rave_inv ns r"
    by (rule iterations_rave_inv[OF assms(1) rave_inv_init assms(2)])
  from inv assms(3,4) have "1 \<le> total_cnt (ns ! i)
       \<and> 0 \<le> place_pos (ns ! i) \<and> place_pos (ns ! i) < 81
       \<and> total_cnt (ns ! i) \<le> rave_total r ! nat (place_pos (ns ! i))"
    unfolding rave_inv_def by blast
  with rave_inv_scores[OF inv assms(3,4)] show ?thesis by blast
qed

text \<open>Two passes on the empty sample board: the second child, node 2.\<close>

theorem rave_divisions_safe_witness:
  "\<exists>ns g r. iterations grid_env 0 (Suc (Suc 0)) (tree_init ([], Black), 0, rave_init)
               = Some (Inr (ns, g, r))
      \<and> length ns = 3 \<and> total_cnt (ns ! 2) = 1 \<and> place_pos (ns ! 2) = 2
      \<and> rave_total r ! 2 = 1
      \<and> (\<exists>v. win_rate (ns ! 2) (rave_total r) (rave_win r) = Inr v)
      \<and> (\<exists>v. ucb ns (ns ! 2) (rave_total r) (rave_win r) = Inr v)
      \<and> (\<exists>v. ucb_opponent ns (ns ! 2) (rave_total r) (rave_win r) = Inr v)"
proof -
  have sh: "\<forall>v g. set (fst (shuffle grid_env v g)) \<subseteq> set v"
    by (simp add: grid_env_def)
  have "\<exists>ns g r. iterations grid_env 0 (Suc (Suc 0)) (tree_init ([], Black), 0, rave_init)
                = Some (Inr (ns, g, r))
          \<and> length ns = 3 \<and> total_cnt (ns ! 2) = 1 \<and> place_pos (ns ! 2) = 2
          \<and> rave_total r ! 2 = 1"
    by (simp add: grid_defs)
  then obtain ns g r where run:
    "iterations grid_env 0 (Suc (Suc 0)) (tree_init ([], Black), 0, rave_init) = Some (Inr (ns, g, r))"
    and facts: "length ns = 3" "total_cnt (ns ! 2) = 1" "place_pos (ns ! 2) = 2"
               "rave_total r ! 2 = 1"
    by blast
  from facts(1) have i: "0 < (2::nat)" "2 < length ns" by simp_all
  from rave_divisions_safe[OF sh run i] run facts show ?thesis by blast
qed

text \<open>
  Claim C1.  One pass from the root of the empty board does not stay inside the tables:
  the root is on the path with \<open>place_pos = -1\<close>, and the backup indexes \<open>rave_total\<close>
  (and \<open>rave_win\<close>, when the root's side won) with it.  Whatever the board and the
  engine, the backup of a path that holds a node with such a \<open>place_pos\<close> uses that index
  (lemma \<open>back_propagate_oob\<close>); here is \<^verbatim>\<open>take_action\<close> with \<^verbatim>\<open>N = 1\<close> on the empty sample
  board: the 81 cells are incremented at position 0 only, and index \<open>-1\<close> is used twice.
\<close>

theorem take_action_one_pass_out_of_range:
  "take_action grid_env 1 ([], Black) 0 =
     Some (Inr (Place_action 0 Black,
                [\<lparr>board = ([], Black), win_cnt = 1, total_cnt = 1, place_pos = - 1,
                   child = [1], parent = None\<rparr>,
                 \<lparr>board = ([0], White), win_cnt = 1, total_cnt = 1, place_pos = 0,
                   child = [], parent = Some 0\<rparr>],
                2,
                \<lparr>rave_total = (replicate 81 0)[0 := 1],
                 rave_win = (replicate 81 0)[0 := 1],
                 oob = [- 1, - 1]\<rparr>))"
  by (simp add: take_action_def MCTS_def select_action_def at_node_def win_rate_def fdiv_def
        vec_read_def RAVE_Beta_def FLT_MAX_def grid_defs)

section \<open>Properties: expansion\<close>

text \<open>
  \<^verbatim>\<open>expand_from_leaf\<close> never looks at the children the node already has: the new child is
  placed at the first position of the shuffled order that is legal on the node's own
  board, and no child at all is attached when no position is legal.
\<close>

lemma expand_from_leaf_first_legal:
  assumes "this < length ns"
  shows "case first_legal env (board (ns ! this)) (fst (all_space env g)) of
           None \<Rightarrow> expand_from_leaf env this ns g = (ns, snd (all_space env g), this)
         | Some (pos, b) \<Rightarrow>
             (case expand_from_leaf env this ns g of
                (ns', g', k) \<Rightarrow> k = length ns \<and> length ns' = Suc (length ns)
                   \<and> child (ns' ! this) = child (ns ! this) @ [k]
                   \<and> place_pos (ns' ! k) = pos \<and> board (ns' ! k) = b
                   \<and> parent (ns' ! k) = Some this)"
  using assms
  by (auto simp: expand_from_leaf_def Let_def mk_node_def nth_append
           split: prod.splits option.splits)

text \<open>
  Claim C2.  The root of the empty board is expanded twice with an engine whose shuffle
  puts position 0 first both times: the second call does not pick a move that is not yet
  a child, it attaches a second child at position 0.
\<close>

theorem expand_from_leaf_duplicate_child:
  "expand_from_leaf grid_env 0 (fst (expand_from_leaf grid_env 0 (tree_init ([], Black)) 0)) 0 =
     ([\<lparr>board = ([], Black), win_cnt = 0, total_cnt = 0, place_pos = - 1,
         child = [1, 2], parent = None\<rparr>,
       \<lparr>board = ([0], White), win_cnt = 0, total_cnt = 0, place_pos = 0,
         child = [], parent = Some 0\<rparr>,
       \<lparr>board = ([0], White), win_cnt = 0, total_cnt = 0, place_pos = 0,
         child = [], parent = Some 0\<rparr>],
      1, 2)"
  by (simp add: grid_defs)

section \<open>Properties: the node value\<close>




section \<open>Properties: the value estimator\<close>

lemma tuple_pass_4:
  "(tuple_pass ops net ^^ 4) (acc, b) =
     (acc + tuple_sum ops net b
          + tuple_sum ops net (rotate_right ops b)
          + tuple_sum ops net (rotate_right ops (rotate_right ops b))
          + tuple_sum ops net (rotate_right ops (rotate_right ops (rotate_right ops b))),
      rotate_right ops (rotate_right ops (rotate_right ops (rotate_right ops b))))"
  by (simp add: eval_nat_numeral tuple_pass_def funpow_swap1)





lemma tuple_sum_lookups:
  "tuple_sum ops net b = (\<Sum>(t, idx)\<leftarrow>tuple_lookups ops b. net t idx)"
  by (simp add: tuple_sum_def tuple_lookups_def Let_def)

lemma estimate_value_lookups:
  "estimate_value ops net b = (\<Sum>(t, idx)\<leftarrow>estimate_lookups ops b. net t idx)"
proof -
  have "estimate_value ops net b =
      fst ((tuple_pass ops net ^^ 4)
             (fst ((tuple_pass ops net ^^ 4) (0, b)),
              reflect_horizontal ops (snd ((tuple_pass ops net ^^ 4) (0, b)))))"
    by (simp add: estimate_value_def case_prod_beta)
  also have "\<dots> = (\<Sum>(t, idx)\<leftarrow>estimate_lookups ops b. net t idx)"
    unfolding tuple_pass_4
    by (simp add: estimate_lookups_def tuple_sum_lookups eval_nat_numeral Let_def)
  finally show ?thesis .
qed










section \<open>Properties: the chance node\<close>

lemma fold_legal_max:
  "fold (\<lambda>i (val_max::real). if \<not> P i then val_max else max val_max (f i)) xs v
     = fold max (map f (filter P xs)) v"
  by (induction xs arbitrary: v) (simp_all add: max.commute)

lemma best_slide_fold:
  "best_slide ops net b = fold max (legal_values ops net b) (- FLT_MAX)"
proof -
  have "best_slide ops net b =
      fold (\<lambda>i val_max. if \<not> fst (slide ops b i) \<noteq> - 1 then val_max
              else max val_max (real_of_int (fst (slide ops b i))
                                + estimate_value ops net (snd (slide ops b i))))
        [0, 1, 2, 3] (- FLT_MAX)"
    unfolding best_slide_def by (simp add: case_prod_beta)
  then show ?thesis
    unfolding legal_values_def by (simp only: fold_legal_max)
qed

lemma fold_max_Max: "fold max vs (v::real) = Max (set (v # vs))"
  by (rule Max.set_eq_fold[symmetric])

lemma best_slide_Max:
  "best_slide ops net b = Max (set (- FLT_MAX # legal_values ops net b))"
  by (simp only: best_slide_fold fold_max_Max)

lemma expectation_fold:
  "fold (\<lambda>pos result. if Q pos then result else result + f pos) xs (acc::real)
     = acc + sum_list (map f (filter (\<lambda>pos. \<not> Q pos) xs))"
  by (induction xs arbitrary: acc) simp_all

lemma expectation_sum_list:
  "expectation ops net after =
     (\<Sum>pos\<leftarrow>empty_cells ops after.
        (best_slide ops net (place_tile ops after pos 1) * 0.9
         + best_slide ops net (place_tile ops after pos 2) * 0.1)
        / real (length (empty_cells ops after)))"
  unfolding expectation_def Let_def expectation_fold empty_cells_def by simp

text \<open>
  Claim C5, as the code has it.  \<^verbatim>\<open>expectation\<close> returns 0 for an after-board without an
  empty cell, and otherwise the sum over the empty positions \<open>p\<close> of
  \<open>(0.9 V\<^sub>2 + 0.1 V\<^sub>4) / E\<close>, with \<open>E\<close> the number of empty cells and \<open>V\<^sub>2\<close>, \<open>V\<^sub>4\<close> the
  results of the direction loop on the board with a 2-tile or a 4-tile placed at \<open>p\<close>.
  That loop returns the largest of \<open>- FLT_MAX\<close> and the values
  \<open>reward + estimate_value(result)\<close> of the legal directions: it is \<open>- FLT_MAX\<close> when no
  direction is legal, and it is the maximum over the legal directions when there is
  one and no value lies below \<open>- FLT_MAX\<close>.
\<close>

theorem expectation_value:
  "expectation ops net after =
     (if empty_cells ops after = [] then 0
      else (\<Sum>pos\<leftarrow>empty_cells ops after.
              (0.9 * best_slide ops net (place_tile ops after pos 1)
               + 0.1 * best_slide ops net (place_tile ops after pos 2))
              / real (length (empty_cells ops after))))
 \<and> best_slide ops net b = Max (set (- FLT_MAX # legal_values ops net b))
 \<and> (legal_values ops net b = [] \<longrightarrow> best_slide ops net b = - FLT_MAX)
 \<and> (legal_values ops net b \<noteq> [] \<and> list_all (\<lambda>v. - FLT_MAX \<le> v) (legal_values ops net b) \<longrightarrow>
       is_max_of (best_slide ops net b) (legal_values ops net b))"
proof -
  have a: "expectation ops net after =
     (if empty_cells ops after = [] then 0
      else (\<Sum>pos\<leftarrow>empty_cells ops after.
              (0.9 * best_slide ops net (place_tile ops after pos 1)
               + 0.1 * best_slide ops net (place_tile ops after pos 2))
              / real (length (empty_cells ops after))))"
    by (simp add: expectation_sum_list mult.commute)
  have b: "best_slide ops net b = - FLT_MAX" if "legal_values ops net b = []"
    using that by (simp add: best_slide_fold)
  have c: "is_max_of (best_slide ops net b) (legal_values ops net b)"
    if ne: "legal_values ops net b \<noteq> []"
      and ge: "list_all (\<lambda>v. - FLT_MAX \<le> v) (legal_values ops net b)"
  proof -
    let ?vs = "legal_values ops net b"
    have eq: "best_slide ops net b = Max (set ?vs)"
    proof -
      have "Max (set (- FLT_MAX # ?vs)) = max (- FLT_MAX) (Max (set ?vs))"
        using ne by simp
      moreover have "- FLT_MAX \<le> Max (set ?vs)"
      proof -
        from ne obtain v where v: "v \<in> set ?vs" by (cases ?vs) auto
        with ge have "- FLT_MAX \<le> v" by (simp add: list_all_iff)
        also have "v \<le> Max (set ?vs)" using v by simp
        finally show ?thesis .
      qed
      ultimately show ?thesis by (simp add: best_slide_Max)
    qed
    have "Max (set ?vs) \<in> set ?vs" using ne by (intro Max_in) simp_all
    moreover have "list_all (\<lambda>x. x \<le> Max (set ?vs)) ?vs" by (simp add: list_all_iff)
    ultimately show ?thesis unfolding is_max_of_def eq by simp
  qed
  from a b c best_slide_Max[of ops net b] show ?thesis by blast
qed

text \<open>
  Scenario S3 of the specification: one empty cell, weights zero, a 2-tile there merges
  for a reward of 4 and a 4-tile for a reward of 8.  And a full board.
\<close>

theorem expectation_value_witness:
  "expectation grid_ops (\<lambda>t i. 0) [0, 1, 3, 4, 2, 3, 4, 3, 3, 4, 3, 4, 4, 3, 4, 3] = 22 / 5
 \<and> empty_cells grid_ops [0, 1, 3, 4, 2, 3, 4, 3, 3, 4, 3, 4, 4, 3, 4, 3] = [0]
 \<and> legal_values grid_ops (\<lambda>t i. 0) [1, 1, 3, 4, 2, 3, 4, 3, 3, 4, 3, 4, 4, 3, 4, 3] = [4, 4]
 \<and> is_max_of (best_slide grid_ops (\<lambda>t i. 0) [1, 1, 3, 4, 2, 3, 4, 3, 3, 4, 3, 4, 4, 3, 4, 3])
      (legal_values grid_ops (\<lambda>t i. 0) [1, 1, 3, 4, 2, 3, 4, 3, 3, 4, 3, 4, 4, 3, 4, 3])
 \<and> expectation grid_ops (\<lambda>t i. 0) [1, 2, 1, 2, 2, 1, 2, 1, 1, 2, 1, 2, 2, 1, 2, 1] = 0"
proof -
  let ?A = "[0, 1, 3, 4, 2, 3, 4, 3, 3, 4, 3, 4, 4, 3, 4, 3] :: nat list"
  let ?A1 = "[1, 1, 3, 4, 2, 3, 4, 3, 3, 4, 3, 4, 4, 3, 4, 3] :: nat list"
  let ?A2 = "[2, 1, 3, 4, 2, 3, 4, 3, 3, 4, 3, 4, 4, 3, 4, 3] :: nat list"
  let ?F = "[1, 2, 1, 2, 2, 1, 2, 1, 1, 2, 1, 2, 2, 1, 2, 1] :: nat list"
  have lv: "legal_values grid_ops (\<lambda>t i. 0) ?A1 = [4, 4]"
    by (simp add: player2048_defs grid2048_defs)
  have lv2: "legal_values grid_ops (\<lambda>t i. 0) ?A2 = [8, 8]"
    by (simp add: player2048_defs grid2048_defs)
  have e1: "empty_cells grid_ops ?A = [0]"
    by (simp add: empty_cells_def grid_ops_def upt_rec[of _ 16])
  have e2: "empty_cells grid_ops ?F = []"
    by (simp add: empty_cells_def grid_ops_def upt_rec[of _ 16])
  have pl: "place_tile grid_ops ?A 0 1 = ?A1" "place_tile grid_ops ?A 0 2 = ?A2"
    by (simp_all add: grid_ops_def)
  have ge: "list_all (\<lambda>v. - FLT_MAX \<le> v) (legal_values grid_ops (\<lambda>t i. 0) ?A1)"
    unfolding lv by (simp add: FLT_MAX_def)
  have ne: "legal_values grid_ops (\<lambda>t i. 0) ?A1 \<noteq> []" unfolding lv by simp
  note t = expectation_value[of grid_ops "\<lambda>t i. 0" ?A ?A1]
  note t2 = expectation_value[of grid_ops "\<lambda>t i. 0" ?A ?A2]
  note u = expectation_value[of grid_ops "\<lambda>t i. 0" ?F]
  from t have b1: "best_slide grid_ops (\<lambda>t i. 0) ?A1 = Max (set (- FLT_MAX # [4, 4]))"
    unfolding lv by (elim conjE)
  from t2 have b2: "best_slide grid_ops (\<lambda>t i. 0) ?A2 = Max (set (- FLT_MAX # [8, 8]))"
    unfolding lv2 by (elim conjE)
  from t ne ge have m: "is_max_of (best_slide grid_ops (\<lambda>t i. 0) ?A1)
      (legal_values grid_ops (\<lambda>t i. 0) ?A1)" by (elim conjE) (rule mp, assumption, rule conjI)
  from t have "expectation grid_ops (\<lambda>t i. 0) ?A =
      (if empty_cells grid_ops ?A = [] then 0
       else (\<Sum>pos\<leftarrow>empty_cells grid_ops ?A.
              (0.9 * best_slide grid_ops (\<lambda>t i. 0) (place_tile grid_ops ?A pos 1)
               + 0.1 * best_slide grid_ops (\<lambda>t i. 0) (place_tile grid_ops ?A pos 2))
              / real (length (empty_cells grid_ops ?A))))" by (elim conjE)
  also have "\<dots> = (0.9 * best_slide grid_ops (\<lambda>t i. 0) (place_tile grid_ops ?A 0 1)
               + 0.1 * best_slide grid_ops (\<lambda>t i. 0) (place_tile grid_ops ?A 0 2)) / 1"
    unfolding e1 by simp
  also have "\<dots> = 22 / 5"
    unfolding pl b1 b2 by (simp add: FLT_MAX_def)
  finally have x: "expectation grid_ops (\<lambda>t i. 0) ?A = 22 / 5" .
  from u have y: "expectation grid_ops (\<lambda>t i. 0) ?F = 0"
    unfolding e2 by simp
  from x e1 lv m y show ?thesis by (intro conjI)
qed

text \<open>
  The claim as stated fails on an after-board whose only empty cell, once filled, leaves
  no legal slide: there is no maximum over the legal directions (the specification reads
  it as minus infinity), and the code returns the finite number \<open>- FLT_MAX\<close>.
\<close>

theorem expectation_value_counterexample:
  "empty_cells grid_ops [6, 5, 6, 4, 5, 2, 1, 5, 3, 5, 6, 2, 0, 6, 2, 3] = [12]
 \<and> legal_values grid_ops (\<lambda>t i. 0)
      (place_tile grid_ops [6, 5, 6, 4, 5, 2, 1, 5, 3, 5, 6, 2, 0, 6, 2, 3] 12 1) = []
 \<and> legal_values grid_ops (\<lambda>t i. 0)
      (place_tile grid_ops [6, 5, 6, 4, 5, 2, 1, 5, 3, 5, 6, 2, 0, 6, 2, 3] 12 2) = []
 \<and> \<not> (\<exists>v. is_max_of v (legal_values grid_ops (\<lambda>t i. 0)
             (place_tile grid_ops [6, 5, 6, 4, 5, 2, 1, 5, 3, 5, 6, 2, 0, 6, 2, 3] 12 1)))
 \<and> expectation grid_ops (\<lambda>t i. 0) [6, 5, 6, 4, 5, 2, 1, 5, 3, 5, 6, 2, 0, 6, 2, 3] = - FLT_MAX"
proof -
  let ?A = "[6, 5, 6, 4, 5, 2, 1, 5, 3, 5, 6, 2, 0, 6, 2, 3] :: nat list"
  have a: "legal_values grid_ops (\<lambda>t i. 0) (place_tile grid_ops ?A 12 1) = []"
    by (simp add: legal_values_def grid2048_defs)
  have b: "legal_values grid_ops (\<lambda>t i. 0) (place_tile grid_ops ?A 12 2) = []"
    by (simp add: legal_values_def grid2048_defs)
  have c: "empty_cells grid_ops ?A = [12]"
    by (simp add: empty_cells_def grid_ops_def upt_rec[of _ 16])
  have "expectation grid_ops (\<lambda>t i. 0) ?A =
     (best_slide grid_ops (\<lambda>t i. 0) (place_tile grid_ops ?A 12 1) * 0.9
         + best_slide grid_ops (\<lambda>t i. 0) (place_tile grid_ops ?A 12 2) * 0.1) / 1"
    unfolding expectation_sum_list c by simp
  also have "\<dots> = - FLT_MAX"
    unfolding best_slide_fold a b by simp
  finally have d: "expectation grid_ops (\<lambda>t i. 0) ?A = - FLT_MAX" .
  have e: "\<not> (\<exists>v. is_max_of v (legal_values grid_ops (\<lambda>t i. 0) (place_tile grid_ops ?A 12 1)))"
    unfolding a by (simp add: is_max_of_def)
  from c a b e d show ?thesis by (intro conjI)
qed


section \<open>Properties: the choice of the direction\<close>

text \<open>
  Claim C6.  \<^verbatim>\<open>take_action\<close> starts with \<^verbatim>\<open>op = -1\<close> and \<^verbatim>\<open>val_max = -FLT_MAX\<close>, replaces them
  only for a value strictly above \<open>val_max\<close>, and always returns \<^verbatim>\<open>action::slide(op)\<close>.
  On the first board below the slides up (0) and to the right (1) are legal (with reward
  0), but after either of them every placement of a tile leaves no legal slide, so both
  values are \<open>- FLT_MAX\<close>, neither is above the start value, and the player returns
  \<^verbatim>\<open>action::slide(-1)\<close>: not the best legal direction, and no legal direction at all,
  whatever the weights \<open>net\<close>.  On the second board no slide is legal and the player
  returns the same \<^verbatim>\<open>action::slide(-1)\<close>, where \<^verbatim>\<open>dummy_player::take_action\<close> of the same
  file returns the null action \<^verbatim>\<open>action()\<close>.
\<close>

theorem take_action2048_returns_no_direction:
  "fst (grid_slide [5, 3, 4, 0, 3, 2, 7, 5, 2, 4, 2, 3, 3, 7, 3, 6] 0) = 0
 \<and> fst (grid_slide [5, 3, 4, 0, 3, 2, 7, 5, 2, 4, 2, 3, 3, 7, 3, 6] 1) = 0
 \<and> take_action2048 grid_ops net [5, 3, 4, 0, 3, 2, 7, 5, 2, 4, 2, 3, 3, 7, 3, 6]
      = (Slide_action (- 1), - FLT_MAX, - 2147483648)
 \<and> dummy_take_action grid_ops [0, 1, 2, 3] [5, 3, 4, 0, 3, 2, 7, 5, 2, 4, 2, 3, 3, 7, 3, 6]
      = Slide_action 0
 \<and> take_action2048 grid_ops net [2, 3, 2, 3, 3, 2, 3, 2, 2, 3, 2, 3, 3, 2, 3, 2]
      = (Slide_action (- 1), - FLT_MAX, - 2147483648)
 \<and> dummy_take_action grid_ops [0, 1, 2, 3] [2, 3, 2, 3, 3, 2, 3, 2, 2, 3, 2, 3, 3, 2, 3, 2]
      = Null_action2048"
proof -
  let ?B = "[5, 3, 4, 0, 3, 2, 7, 5, 2, 4, 2, 3, 3, 7, 3, 6] :: nat list"
  let ?U = "[5, 3, 4, 5, 3, 2, 7, 3, 2, 4, 2, 6, 3, 7, 3, 0] :: nat list"
  let ?R = "[0, 5, 3, 4, 3, 2, 7, 5, 2, 4, 2, 3, 3, 7, 3, 6] :: nat list"
  let ?D = "[2, 3, 2, 3, 3, 2, 3, 2, 2, 3, 2, 3, 3, 2, 3, 2] :: nat list"
  have s: "slide grid_ops ?B 0 = (0, ?U)" "slide grid_ops ?B 1 = (0, ?R)"
      "slide grid_ops ?B 2 = (- 1, ?B)" "slide grid_ops ?B 3 = (- 1, ?B)"
    by (simp_all add: grid2048_defs)
  have d: "slide grid_ops ?D 0 = (- 1, ?D)" "slide grid_ops ?D 1 = (- 1, ?D)"
      "slide grid_ops ?D 2 = (- 1, ?D)" "slide grid_ops ?D 3 = (- 1, ?D)"
    by (simp_all add: grid2048_defs)
  have cu: "empty_cells grid_ops ?U = [15]" and cr: "empty_cells grid_ops ?R = [0]"
    by (simp_all add: empty_cells_def grid_ops_def upt_rec[of _ 16])
  have lu: "legal_values grid_ops net (place_tile grid_ops ?U 15 1) = []"
           "legal_values grid_ops net (place_tile grid_ops ?U 15 2) = []"
    by (simp_all add: legal_values_def grid2048_defs)
  have lr: "legal_values grid_ops net (place_tile grid_ops ?R 0 1) = []"
           "legal_values grid_ops net (place_tile grid_ops ?R 0 2) = []"
    by (simp_all add: legal_values_def grid2048_defs)
  have "expectation grid_ops net ?U =
     (best_slide grid_ops net (place_tile grid_ops ?U 15 1) * 0.9
         + best_slide grid_ops net (place_tile grid_ops ?U 15 2) * 0.1) / 1"
    unfolding expectation_sum_list cu by simp
  also have "\<dots> = - FLT_MAX"
    unfolding best_slide_fold lu by simp
  finally have eu: "expectation grid_ops net ?U = - FLT_MAX" .
  have "expectation grid_ops net ?R =
     (best_slide grid_ops net (place_tile grid_ops ?R 0 1) * 0.9
         + best_slide grid_ops net (place_tile grid_ops ?R 0 2) * 0.1) / 1"
    unfolding expectation_sum_list cr by simp
  also have "\<dots> = - FLT_MAX"
    unfolding best_slide_fold lr by simp
  finally have er: "expectation grid_ops net ?R = - FLT_MAX" .
  have a: "take_action2048 grid_ops net ?B = (Slide_action (- 1), - FLT_MAX, - 2147483648)"
    by (simp add: take_action2048_def s eu er)
  have b: "dummy_take_action grid_ops [0, 1, 2, 3] ?B = Slide_action 0"
    by (simp add: dummy_take_action_def s)
  have c: "take_action2048 grid_ops net ?D = (Slide_action (- 1), - FLT_MAX, - 2147483648)"
    by (simp add: take_action2048_def d)
  have e: "dummy_take_action grid_ops [0, 1, 2, 3] ?D = Null_action2048"
    by (simp add: dummy_take_action_def d)
  have f: "fst (grid_slide ?B 0) = 0" "fst (grid_slide ?B 1) = 0"
    using s(1,2) by (simp_all add: grid_ops_def)
  from f a b c e show ?thesis by (intro conjI)
qed

section \<open>Properties: the best direction\<close>

text \<open>
  The loop of \<^verbatim>\<open>take_action\<close> over directions in increasing order: \<open>L i\<close> says that
  direction \<open>i\<close> is legal, \<open>V i\<close> is its value and \<open>R i\<close> its reward.
\<close>

lemma first_max_scan:
  fixes f :: "int \<Rightarrow> real \<times> int \<times> int \<Rightarrow> real \<times> int \<times> int"
  assumes f: "\<And>i v r op. f i (v, r, op) =
                (if \<not> L i then (v, r, op) else if V i > v then (V i, R i, i) else (v, r, op))"
    and "sorted xs" and "distinct xs"
    and "fold f xs (v0, r0, op0) = (v', r', op')"
  shows "v0 \<le> v' \<and> (\<forall>i\<in>set xs. L i \<longrightarrow> V i \<le> v')
       \<and> ((v', r', op') = (v0, r0, op0)
          \<or> (op' \<in> set xs \<and> L op' \<and> v' = V op' \<and> r' = R op' \<and> v0 < v'
             \<and> (\<forall>i\<in>set xs. L i \<and> i < op' \<longrightarrow> V i < v')))"
  using assms(2-)
proof (induction xs arbitrary: v0 r0 op0)
  case Nil
  then show ?case by simp
next
  case (Cons x xs)
  from Cons.prems(1,2) have srt: "sorted xs" "distinct xs" and least: "\<forall>i\<in>set xs. x < i"
    by (auto simp: less_le)
  show ?case
  proof (cases "L x \<and> V x > v0")
    case True
    with Cons.prems(3) have run: "fold f xs (V x, R x, x) = (v', r', op')" by (simp add: f)
    from Cons.IH[OF srt run] have ih: "V x \<le> v'" "\<forall>i\<in>set xs. L i \<longrightarrow> V i \<le> v'"
      "(v', r', op') = (V x, R x, x)
          \<or> (op' \<in> set xs \<and> L op' \<and> v' = V op' \<and> r' = R op' \<and> V x < v'
             \<and> (\<forall>i\<in>set xs. L i \<and> i < op' \<longrightarrow> V i < v'))" by blast+
    from ih(3) show ?thesis
    proof
      assume "(v', r', op') = (V x, R x, x)"
      with True ih(1,2) least show ?thesis by auto
    next
      assume "op' \<in> set xs \<and> L op' \<and> v' = V op' \<and> r' = R op' \<and> V x < v'
             \<and> (\<forall>i\<in>set xs. L i \<and> i < op' \<longrightarrow> V i < v')"
      with True ih(1,2) show ?thesis by auto
    qed
  next
    case False
    then have "f x (v0, r0, op0) = (v0, r0, op0)" by (auto simp: f)
    with Cons.prems(3) have run: "fold f xs (v0, r0, op0) = (v', r', op')" by simp
    from Cons.IH[OF srt run] have ih: "v0 \<le> v'" "\<forall>i\<in>set xs. L i \<longrightarrow> V i \<le> v'"
      "(v', r', op') = (v0, r0, op0)
          \<or> (op' \<in> set xs \<and> L op' \<and> v' = V op' \<and> r' = R op' \<and> v0 < v'
             \<and> (\<forall>i\<in>set xs. L i \<and> i < op' \<longrightarrow> V i < v'))" by blast+
    from False have x: "L x \<longrightarrow> V x \<le> v0" by auto
    from ih(3) show ?thesis
    proof
      assume "(v', r', op') = (v0, r0, op0)"
      with ih(1,2) x show ?thesis by auto
    next
      assume "op' \<in> set xs \<and> L op' \<and> v' = V op' \<and> r' = R op' \<and> v0 < v'
             \<and> (\<forall>i\<in>set xs. L i \<and> i < op' \<longrightarrow> V i < v')"
      with ih(1,2) x show ?thesis by auto
    qed
  qed
qed

text \<open>
  Section 4.A4 of the specification, where it holds: when some legal direction has a
  value above \<open>- FLT_MAX\<close>, \<^verbatim>\<open>take_action\<close> returns a legal direction \<open>op\<close> of 0 to 3 with the
  value and the reward of that direction; no legal direction has a larger value, and
  every legal direction before \<open>op\<close> has a smaller one.
\<close>

theorem take_action2048_first_max:
  assumes "i \<in> {0, 1, 2, 3}" and "fst (slide ops before i) \<noteq> - 1"
    and "- FLT_MAX < real_of_int (fst (slide ops before i))
                      + expectation ops net (snd (slide ops before i))"
  shows "\<exists>op. take_action2048 ops net before =
            (Slide_action op,
             real_of_int (fst (slide ops before op)) + expectation ops net (snd (slide ops before op)),
             fst (slide ops before op))
         \<and> op \<in> {0, 1, 2, 3} \<and> fst (slide ops before op) \<noteq> - 1
         \<and> (\<forall>j\<in>{0, 1, 2, 3}. fst (slide ops before j) \<noteq> - 1 \<longrightarrow>
               real_of_int (fst (slide ops before j)) + expectation ops net (snd (slide ops before j))
               \<le> real_of_int (fst (slide ops before op)) + expectation ops net (snd (slide ops before op)))
         \<and> (\<forall>j\<in>{0, 1, 2, 3}. fst (slide ops before j) \<noteq> - 1 \<and> j < op \<longrightarrow>
               real_of_int (fst (slide ops before j)) + expectation ops net (snd (slide ops before j))
               < real_of_int (fst (slide ops before op)) + expectation ops net (snd (slide ops before op)))"
proof -
  let ?L = "\<lambda>i. fst (slide ops before i) \<noteq> - 1"
  let ?R = "\<lambda>i. fst (slide ops before i)"
  let ?V = "\<lambda>i. real_of_int (fst (slide ops before i)) + expectation ops net (snd (slide ops before i))"
  define f where "f = (\<lambda>i (val_max, r_max, op).
                   case slide ops before i of (reward, b) \<Rightarrow>
                     if reward = - 1 then (val_max, r_max, op)
                     else let v = real_of_int reward + expectation ops net b
                          in if v > val_max then (v, reward, i) else (val_max :: real, r_max :: int, op :: int))"
  have f: "f i (v, r, op) =
       (if \<not> ?L i then (v, r, op) else if ?V i > v then (?V i, ?R i, i) else (v, r, op))" for i v r op
    by (simp add: f_def Let_def split: prod.splits)
  obtain v' r' op' where run: "fold f [0, 1, 2, 3] (- FLT_MAX, - 2147483648, - 1) = (v', r', op')"
    by (cases "fold f [0, 1, 2, 3] (- FLT_MAX, - 2147483648, - 1)")
  have res: "take_action2048 ops net before = (Slide_action op', v', r')"
    unfolding take_action2048_def f_def[symmetric] run by simp
  have "sorted [0, 1, 2, 3 :: int]" "distinct [0, 1, 2, 3 :: int]" by simp_all
  from first_max_scan[of f ?L ?V ?R, OF f this run]
  have le: "\<forall>j\<in>set [0, 1, 2, 3]. ?L j \<longrightarrow> ?V j \<le> v'"
    and alt: "(v', r', op') = (- FLT_MAX, - 2147483648, - 1)
          \<or> (op' \<in> set [0, 1, 2, 3] \<and> ?L op' \<and> v' = ?V op' \<and> r' = ?R op' \<and> - FLT_MAX < v'
             \<and> (\<forall>j\<in>set [0, 1, 2, 3]. ?L j \<and> j < op' \<longrightarrow> ?V j < v'))"
    by blast+
  from le assms have "?V i \<le> v'" by auto
  with assms(3) have "v' \<noteq> - FLT_MAX" by simp
  with alt have good: "op' \<in> set [0, 1, 2, 3]" "?L op'" "v' = ?V op'" "r' = ?R op'"
    "\<forall>j\<in>set [0, 1, 2, 3]. ?L j \<and> j < op' \<longrightarrow> ?V j < v'" by auto
  show ?thesis
    using res good le by (intro exI[of _ op']) auto
qed

lemma tuple_sum_zero: "tuple_sum ops (\<lambda>t i. 0) b = 0"
  by (simp add: tuple_sum_def)

lemma estimate_value_zero: "estimate_value ops (\<lambda>t i. 0) b = 0"
  by (simp add: estimate_value_def tuple_pass_4 tuple_sum_zero)

text \<open>
  A board with two legal directions of the same value: sliding right (1) and sliding left
  (3) both merge the two 4-tiles of the first row for a reward of 8, and with the weights
  zero the expectation after either is 16.  The first of them, direction 1, is returned.
\<close>

theorem take_action2048_first_max_witness:
  "take_action2048 grid_ops (\<lambda>t i. 0) [2, 2, 3, 4, 3, 4, 5, 3, 2, 5, 3, 4, 3, 4, 5, 3]
     = (Slide_action 1, 24, 8)"
proof -
  let ?P = "[2, 2, 3, 4, 3, 4, 5, 3, 2, 5, 3, 4, 3, 4, 5, 3] :: nat list"
  let ?R = "[0, 3, 3, 4, 3, 4, 5, 3, 2, 5, 3, 4, 3, 4, 5, 3] :: nat list"
  let ?L = "[3, 3, 4, 0, 3, 4, 5, 3, 2, 5, 3, 4, 3, 4, 5, 3] :: nat list"
  let ?net = "\<lambda>(t::nat) (i::nat). 0 :: real"
  have s: "slide grid_ops ?P 0 = (- 1, ?P)" "slide grid_ops ?P 1 = (8, ?R)"
      "slide grid_ops ?P 2 = (- 1, ?P)" "slide grid_ops ?P 3 = (8, ?L)"
    by (simp_all add: grid2048_defs)
  have cr: "empty_cells grid_ops ?R = [0]" and cl: "empty_cells grid_ops ?L = [3]"
    by (simp_all add: empty_cells_def grid_ops_def upt_rec[of _ 16])
  have lr: "legal_values grid_ops ?net (place_tile grid_ops ?R 0 1) = [16, 16]"
           "legal_values grid_ops ?net (place_tile grid_ops ?R 0 2) = [16, 16]"
    by (simp_all add: legal_values_def estimate_value_zero grid2048_defs)
  have ll: "legal_values grid_ops ?net (place_tile grid_ops ?L 3 1) = [16, 16, 16, 16]"
           "legal_values grid_ops ?net (place_tile grid_ops ?L 3 2) = [16, 16, 16, 16]"
    by (simp_all add: legal_values_def estimate_value_zero grid2048_defs)
  have "expectation grid_ops ?net ?R =
     (best_slide grid_ops ?net (place_tile grid_ops ?R 0 1) * 0.9
         + best_slide grid_ops ?net (place_tile grid_ops ?R 0 2) * 0.1) / 1"
    unfolding expectation_sum_list cr by simp
  also have "\<dots> = 16"
    unfolding best_slide_fold lr by (simp add: FLT_MAX_def)
  finally have er: "expectation grid_ops ?net ?R = 16" .
  have "expectation grid_ops ?net ?L =
     (best_slide grid_ops ?net (place_tile grid_ops ?L 3 1) * 0.9
         + best_slide grid_ops ?net (place_tile grid_ops ?L 3 2) * 0.1) / 1"
    unfolding expectation_sum_list cl by simp
  also have "\<dots> = 16"
    unfolding best_slide_fold ll by (simp add: FLT_MAX_def)
  finally have el: "expectation grid_ops ?net ?L = 16" .
  have h1: "(1::int) \<in> {0, 1, 2, 3}" by simp
  have h2: "fst (slide grid_ops ?P 1) \<noteq> - 1" unfolding s by simp
  have h3: "- FLT_MAX < real_of_int (fst (slide grid_ops ?P 1))
                      + expectation grid_ops ?net (snd (slide grid_ops ?P 1))"
    unfolding s fst_conv snd_conv er by (simp add: FLT_MAX_def)
  from take_action2048_first_max[of 1 grid_ops ?P ?net, OF h1 h2 h3]
  obtain op where res: "take_action2048 grid_ops ?net ?P =
            (Slide_action op,
             real_of_int (fst (slide grid_ops ?P op)) + expectation grid_ops ?net (snd (slide grid_ops ?P op)),
             fst (slide grid_ops ?P op))"
      and op: "op \<in> {0, 1, 2, 3}" and legal: "fst (slide grid_ops ?P op) \<noteq> - 1"
      and first: "\<forall>j\<in>{0, 1, 2, 3}. fst (slide grid_ops ?P j) \<noteq> - 1 \<and> j < op \<longrightarrow>
               real_of_int (fst (slide grid_ops ?P j)) + expectation grid_ops ?net (snd (slide grid_ops ?P j))
               < real_of_int (fst (slide grid_ops ?P op)) + expectation grid_ops ?net (snd (slide grid_ops ?P op))"
    by blast
  from op have "op = 0 \<or> op = 1 \<or> op = 2 \<or> op = 3" by simp
  with legal have "op = 1 \<or> op = 3" by (elim disjE) (simp_all add: s)
  moreover have "op \<noteq> 3"
  proof
    assume "op = 3"
    from first h1 have "fst (slide grid_ops ?P 1) \<noteq> - 1 \<and> 1 < op \<longrightarrow>
               real_of_int (fst (slide grid_ops ?P 1)) + expectation grid_ops ?net (snd (slide grid_ops ?P 1))
               < real_of_int (fst (slide grid_ops ?P op)) + expectation grid_ops ?net (snd (slide grid_ops ?P op))"
      by (rule bspec)
    then show False unfolding \<open>op = 3\<close> s fst_conv snd_conv er el by simp
  qed
  ultimately have "op = 1" by simp
  from res show ?thesis unfolding \<open>op = 1\<close> s fst_conv snd_conv er by simp
qed

section \<open>Properties: the playout\<close>

text \<open>
  The queue loop ends: a legal move shortens the queue, and a move that is not legal
  brings the counter closer to the length of the queue.
\<close>

lemma playout_returns_aux:
  "length q = n \<Longrightarrow> cnt \<le> n \<Longrightarrow> n - cnt = d \<Longrightarrow> \<exists>b'. playout env b q cnt = Some b'"
proof (induction n arbitrary: b q cnt d rule: less_induct)
  case (less n)
  note outer = less.IH
  from less.prems show ?case
  proof (induction d arbitrary: b q cnt rule: less_induct)
    case (less d)
    show ?case
    proof (cases "cnt = length q")
      case True
      then show ?thesis by (subst playout.simps) simp
    next
      case False
      with less.prems have lt: "cnt < n" by simp
      with less.prems obtain i q' where q: "q = i # q'" by (cases q) auto
      show ?thesis
      proof (cases "place env b i")
        case None
        have "\<exists>b'. playout env b (q' @ [i]) (cnt + 1) = Some b'"
          by (rule less.IH[of "n - (cnt + 1)"]) (use less.prems lt q in auto)
        with None False q show ?thesis by (subst playout.simps) simp
      next
        case (Some b1)
        have "\<exists>b'. playout env b1 q' 0 = Some b'"
          by (rule outer[of "length q'" q' 0 "length q'"]) (use less.prems q in auto)
        with Some False q show ?thesis by (subst playout.simps) simp
      qed
    qed
  qed
qed

text \<open>
  \<^verbatim>\<open>simulate_winner\<close> returns a winner, Black or White, for every board, every legality
  rule and every outcome of the shuffle.
\<close>

theorem simulate_winner_returns:
  "\<exists>w g'. simulate_winner env n g = Some (w, g') \<and> (w = Black \<or> w = White)"
proof -
  obtain vec g' where sp: "all_space env g = (vec, g')" by (cases "all_space env g")
  from playout_returns_aux[of vec "length vec" 0 "length vec" env "board n"]
  obtain b' where "playout env (board n) vec 0 = Some b'" by auto
  with sp show ?thesis by (simp add: simulate_winner_def)
qed

section \<open>Properties: a root without a legal move\<close>

lemma is_leaf_no_legal:
  assumes "\<forall>p. place env (board n) p = None"
  shows "is_leaf env n"
  using assms by (simp add: is_leaf_def)

lemma iteration_terminal:
  assumes dead: "\<forall>p. place env state p = None"
    and shape: "length ns = 1" "board (ns ! 0) = state" "child (ns ! 0) = []"
  shows "\<exists>ns' g' r'. iteration env 0 (ns, g, r) = Some (Inr (ns', g', r'))
           \<and> length ns' = 1 \<and> board (ns' ! 0) = state \<and> child (ns' ! 0) = []"
proof -
  have leaf: "is_leaf env (ns ! 0)" using dead shape(2) by (simp add: is_leaf_def)
  have sel: "select_root_to_leaf env 0 who ns rt rw = Some (Inr [0])" for who rt rw
    unfolding select_root_to_leaf_def using leaf shape(1)
    by (subst select_loop.simps) simp
  have fl: "first_legal env (board (ns ! 0)) vec = None" for vec
    using dead shape(2) by (simp add: first_legal_None)
  have ex: "expand_from_leaf env 0 ns g = (ns, snd (all_space env g), 0)"
    by (simp add: expand_from_leaf_def fl split: prod.splits)
  from simulate_winner_returns[of env "ns ! 0" "snd (all_space env g)"]
  obtain w g2 where sim: "simulate_winner env (ns ! 0) (snd (all_space env g)) = Some (w, g2)"
    by blast
  obtain ns2 r2 where bp: "back_propagate env 0 [0] w (ns, r) = (ns2, r2)"
    by (cases "back_propagate env 0 [0] w (ns, r)")
  have it: "iteration env 0 (ns, g, r) = Some (Inr (ns2, g2, r2))"
    by (simp add: iteration_def sel ex sim bp del: back_propagate.simps)
  have ns2: "ns2 = back_propagate_par env 0 [0] w ns"
    using back_propagate_nodes[of env 0 "[0]" w ns r] bp by simp
  from back_propagate_par_nth[of env 0 "[0]" w ns] shape
  have "length ns2 = 1 \<and> board (ns2 ! 0) = state \<and> child (ns2 ! 0) = []"
    unfolding ns2 by simp
  with it show ?thesis by blast
qed

lemma iterations_terminal:
  assumes dead: "\<forall>p. place env state p = None"
    and shape: "length ns = 1" "board (ns ! 0) = state" "child (ns ! 0) = []"
  shows "\<exists>ns' g' r'. iterations env 0 k (ns, g, r) = Some (Inr (ns', g', r'))
           \<and> length ns' = 1 \<and> board (ns' ! 0) = state \<and> child (ns' ! 0) = []"
  using shape
proof (induction k arbitrary: ns g r)
  case 0
  then show ?case by simp
next
  case (Suc k)
  from iteration_terminal[OF dead Suc.prems, of g r]
  obtain ns1 g1 r1 where it: "iteration env 0 (ns, g, r) = Some (Inr (ns1, g1, r1))"
    and sh: "length ns1 = 1" "board (ns1 ! 0) = state" "child (ns1 ! 0) = []" by blast
  from Suc.IH[OF sh, of g1 r1] it show ?case by simp
qed

text \<open>
  Scenario S5 of the specification: from a position without a legal move the search
  completes any number of passes, the root stays without children, and the player
  returns the null action.
\<close>

theorem take_action_terminal:
  assumes "\<forall>p. place env state p = None" and "N \<noteq> 0"
  shows "\<exists>ns g' r. take_action env N state g = Some (Inr (Null_action, ns, g', r))
           \<and> length ns = 1 \<and> child (ns ! 0) = []"
proof -
  have shape: "length (tree_init state) = 1" "board (tree_init state ! 0) = state"
    "child (tree_init state ! 0) = []"
    by (simp_all add: tree_init_def mk_node_def)
  from iterations_terminal[OF assms(1) shape, of "nat N" g rave_init]
  obtain ns g' r where run: "iterations env 0 (nat N) (tree_init state, g, rave_init)
        = Some (Inr (ns, g', r))"
    and sh: "length ns = 1" "child (ns ! 0) = []" by blast
  have "select_action env 0 ns (rave_total r) (rave_win r) = Inr Null_action"
    using sh by (simp add: select_action_def)
  with run sh show ?thesis by (simp add: take_action_def MCTS_def)
qed

text \<open>The sample board with all 81 positions played.\<close>

theorem take_action_terminal_witness:
  "\<exists>ns g' r. take_action grid_env 3 ([0..80], Black) 0 = Some (Inr (Null_action, ns, g', r))
           \<and> length ns = 1 \<and> child (ns ! 0) = []"
proof -
  have dead: "\<forall>p. place grid_env ([0..80], Black) p = None"
    by (auto simp: grid_env_def grid_place_def)
  from take_action_terminal[OF dead, of 3 0] show ?thesis by simp
qed

section \<open>Properties: the feature index\<close>

text \<open>
  The index is the base-16 number of the six cells, and it lies inside a table of
  \<open>16 ^ 6\<close> entries when every cell is below 16.
\<close>

theorem extract_feature6_index:
  assumes "\<forall>pos \<in> {a, b, c, d, e, f}. cell ops after pos < 16"
  shows "extract_feature6 ops after a b c d e f =
           cell ops after a * 16 ^ 5 + cell ops after b * 16 ^ 4 + cell ops after c * 16 ^ 3
         + cell ops after d * 16 ^ 2 + cell ops after e * 16 + cell ops after f
       \<and> extract_feature6 ops after a b c d e f < 16 ^ 6"
proof -
  from assms have "cell ops after a \<le> 15" "cell ops after b \<le> 15" "cell ops after c \<le> 15"
    "cell ops after d \<le> 15" "cell ops after e \<le> 15" "cell ops after f \<le> 15" by auto
  then show ?thesis by (simp add: extract_feature6_def)
qed

text \<open>Scenario S1 of the specification; the sum written there, 3 211 271, is not the value.\<close>

theorem extract_feature6_index_witness:
  "extract_feature6 grid_ops [3, 1, 0, 2, 5, 7, 0, 0, 0, 0, 0, 0, 0, 0, 0, 0] 0 1 2 3 4 5 = 3211863
 \<and> (3211863::nat) = 3 * 16 ^ 5 + 1 * 16 ^ 4 + 0 * 16 ^ 3 + 2 * 16 ^ 2 + 5 * 16 + 7
 \<and> (3211863::nat) < 16 ^ 6"
  using extract_feature6_index[of 0 1 2 3 4 5 grid_ops
          "[3, 1, 0, 2, 5, 7, 0, 0, 0, 0, 0, 0, 0, 0, 0, 0]"]
  by (simp add: grid_ops_def)

end
